theory Spec2Isabelle
  imports Main "HOL-Library.Word"
begin

unbundle bit_operations_syntax

section \<open>Identity generation: cryptoRandomObjectId\<close>

type_synonym u8 = "8 word"

text \<open>
  The byte source behind \<open>crypto.randomBytes\<close> is an infinite sequence of bytes;
  \<open>randomBytes n\<close> reads its first \<open>n\<close> bytes into a buffer.
\<close>

type_synonym entropy = "nat \<Rightarrow> u8"

definition randomBytes :: "nat \<Rightarrow> entropy \<Rightarrow> u8 list" where
  "randomBytes n src = map src [0..<n]"

definition chars :: string where
  "chars = ''abcdefghijklmnopqrstuvwxyzABCEDFGHIJKLMNOPQRSTUVWXYZ0123456789''"

text \<open>
  The loop \<open>for (i = bytes.length - 1; i >= 0; i--) str += chars[(bytes[i] | 0) % chars.length]\<close>.
  The counter of the model is \<open>i + 1\<close>: it is \<open>Suc i\<close> while the body runs at index \<open>i\<close>
  and \<open>0\<close> when the loop condition \<open>i >= 0\<close> fails.
\<close>

fun cryptoRandomObjectId_loop :: "u8 list \<Rightarrow> nat \<Rightarrow> string \<Rightarrow> string" where
  "cryptoRandomObjectId_loop bytes 0 str = str"
| "cryptoRandomObjectId_loop bytes (Suc i) str =
     cryptoRandomObjectId_loop bytes i (str @ [chars ! (unat (bytes ! i OR 0) mod length chars)])"

text \<open>The parameter \<open>length = 17\<close>: \<open>None\<close> is the call without an argument.\<close>

definition cryptoRandomObjectId :: "nat option \<Rightarrow> entropy \<Rightarrow> string" where
  "cryptoRandomObjectId len src =
     (let bytes = randomBytes (case len of None \<Rightarrow> 17 | Some n \<Rightarrow> n) src
      in cryptoRandomObjectId_loop bytes (length bytes) '''')"

definition alphanumeric :: "char set" where
  "alphanumeric = set ''abcdefghijklmnopqrstuvwxyz'' \<union> set ''ABCDEFGHIJKLMNOPQRSTUVWXYZ''
     \<union> set ''0123456789''"

section \<open>JavaScript values, exceptions, timers\<close>

text \<open>
  The values that flow through the asynchronous helpers: results of promises, rejection reasons
  and thrown exceptions. \<open>JError m\<close> is \<open>new Error(m)\<close>, \<open>JObject n\<close> any other object.
  \<open>truthy\<close> is the conversion to boolean of \<open>if (err)\<close>.
\<close>

datatype js_value =
  JUndefined | JNull | JBool bool | JNum int | JNaN | JStr string | JError string | JObject nat

fun truthy :: "js_value \<Rightarrow> bool" where
  "truthy JUndefined = False"
| "truthy JNull = False"
| "truthy (JBool b) = b"
| "truthy (JNum n) = (n \<noteq> 0)"
| "truthy JNaN = False"
| "truthy (JStr s) = (s \<noteq> [])"
| "truthy (JError m) = True"
| "truthy (JObject n) = True"

text \<open>A call either returns or throws; both leave a state behind.\<close>

datatype 'w outcome = Normal 'w | Thrown js_value 'w

fun and_then :: "'w outcome \<Rightarrow> ('w \<Rightarrow> 'w outcome) \<Rightarrow> 'w outcome" where
  "and_then (Normal w) f = f w"
| "and_then (Thrown e w) f = Thrown e w"

text \<open>
  The timers of the event loop: \<open>timer_pending\<close> maps the id of each pending timer to its
  delay. \<open>clearTimeout\<close> of \<open>undefined\<close> or of a timer that is not pending does nothing.
\<close>

record timers =
  timer_next :: nat
  timer_pending :: "nat \<rightharpoonup> nat"

definition setTimeout :: "nat \<Rightarrow> timers \<Rightarrow> nat \<times> timers" where
  "setTimeout delay t =
     (timer_next t,
      t\<lparr>timer_next := Suc (timer_next t),
        timer_pending := (timer_pending t)(timer_next t \<mapsto> delay)\<rparr>)"

definition clearTimeout :: "nat option \<Rightarrow> timers \<Rightarrow> timers" where
  "clearTimeout tid t =
     (case tid of None \<Rightarrow> t | Some i \<Rightarrow> t\<lparr>timer_pending := (timer_pending t)(i := None)\<rparr>)"

text \<open>The calls made on the \<open>resolve\<close> and \<open>reject\<close> functions of a \<open>new Promise\<close>.\<close>

datatype settle_call = Resolve js_value | Reject js_value

section \<open>timeoutPromise\<close>

text \<open>
  The closure of one call of \<open>timeoutPromise\<close>: the variables \<open>timeout\<close> and
  \<open>hasFulfilled\<close>, the timers of the event loop, and the calls made so far on \<open>resolve\<close>
  and \<open>reject\<close> of the returned promise.
\<close>

record tp_state =
  hasFulfilled :: bool
  timeout :: "nat option"
  tp_timers :: timers
  tp_settled :: "settle_call list"

definition callback :: "js_value \<Rightarrow> js_value \<Rightarrow> tp_state \<Rightarrow> tp_state" where
  "callback err result s =
     (if hasFulfilled s then s
      else
        let s1 = s\<lparr>tp_timers := clearTimeout (timeout s) (tp_timers s)\<rparr>;
            s2 = s1\<lparr>hasFulfilled := True\<rparr>
        in if truthy err then s2\<lparr>tp_settled := tp_settled s2 @ [Reject err]\<rparr>
           else s2\<lparr>tp_settled := tp_settled s2 @ [Resolve result]\<rparr>)"

text \<open>The parameter \<open>errorMessage = 'Promise has timed-out'\<close>.\<close>

definition errorMessage :: "string option \<Rightarrow> string" where
  "errorMessage given = (case given of None \<Rightarrow> ''Promise has timed-out'' | Some m \<Rightarrow> m)"

text \<open>
  The executor: the reactions are registered on \<open>promise\<close> (they run when the environment
  settles it, never inside the executor), then the timer is set.
\<close>

definition timeoutPromise :: "nat \<Rightarrow> timers \<Rightarrow> tp_state" where
  "timeoutPromise timeoutMillis rt =
     (let (tid, rt') = setTimeout timeoutMillis rt
      in \<lparr>hasFulfilled = False, timeout = Some tid, tp_timers = rt', tp_settled = []\<rparr>)"

text \<open>
  What the environment can do afterwards: settle the wrapped promise, which runs one of the two
  reactions \<open>(result) => callback(null, result)\<close> and \<open>callback\<close>, or fire the timer, which
  the event loop does only while the timer is pending and which runs
  \<open>() => callback(new Error(errorMessage))\<close>.
\<close>

datatype tp_event = OperationFulfilled js_value | OperationRejected js_value | TimerFired

fun tp_step :: "string option \<Rightarrow> tp_state \<Rightarrow> tp_event \<Rightarrow> tp_state" where
  "tp_step msg s (OperationFulfilled v) = callback JNull v s"
| "tp_step msg s (OperationRejected e) = callback e JUndefined s"
| "tp_step msg s TimerFired =
     (case timeout s of
        None \<Rightarrow> s
      | Some tid \<Rightarrow>
          (case timer_pending (tp_timers s) tid of
             None \<Rightarrow> s
           | Some d \<Rightarrow>
               callback (JError (errorMessage msg)) JUndefined
                 (s\<lparr>tp_timers := clearTimeout (Some tid) (tp_timers s)\<rparr>)))"

definition tp_run :: "string option \<Rightarrow> tp_state \<Rightarrow> tp_event list \<Rightarrow> tp_state" where
  "tp_run msg s evs = foldl (tp_step msg) s evs"

section \<open>betterSetInterval and betterClearInterval\<close>

text \<open>
  The closure of one call of \<open>betterSetInterval\<close>: \<open>isRunning\<close> and \<open>timeoutId\<close>, the
  timers of the event loop, the number of times \<open>func\<close> has been invoked, and the entries
  written with \<open>log.exception\<close>.
\<close>

record bsi_state =
  isRunning :: bool
  timeoutId :: "nat option"
  bsi_timers :: timers
  executions :: nat
  log_exceptions :: "(js_value \<times> string) list"

definition funcWrapper :: "bsi_state \<Rightarrow> bsi_state" where
  "funcWrapper s = s\<lparr>executions := Suc (executions s)\<rparr>"

text \<open>The continuation handed to \<open>func\<close>.\<close>

definition bsi_callback :: "nat \<Rightarrow> bsi_state \<Rightarrow> bsi_state" where
  "bsi_callback delay s =
     (if isRunning s
      then (let (tid, rt') = setTimeout delay (bsi_timers s)
            in s\<lparr>timeoutId := Some tid, bsi_timers := rt'\<rparr>)
      else s)"

definition clearInterval_method :: "bsi_state \<Rightarrow> bsi_state" where
  "clearInterval_method s =
     (let s1 = s\<lparr>isRunning := False\<rparr>
      in s1\<lparr>bsi_timers := clearTimeout (timeoutId s1) (bsi_timers s1)\<rparr>)"

text \<open>
  An argument of \<open>betterClearInterval\<close>: a falsy value, or an object whose property
  \<open>_betterClearInterval\<close> is missing, a value that is not a function, or a function, which
  may throw.
\<close>

datatype member = Missing | NotFunction js_value | Method "bsi_state \<Rightarrow> bsi_state outcome"

datatype handle = NoHandle | Handle member

definition betterSetInterval :: "nat \<Rightarrow> timers \<Rightarrow> (js_value \<times> string) list \<Rightarrow> handle \<times> bsi_state" where
  "betterSetInterval delay rt lg =
     (let s = \<lparr>isRunning = True, timeoutId = None, bsi_timers = rt, executions = 0,
                log_exceptions = lg\<rparr>
      in (Handle (Method (\<lambda>s. Normal (clearInterval_method s))), funcWrapper s))"

definition log_exception :: "js_value \<Rightarrow> string \<Rightarrow> bsi_state \<Rightarrow> bsi_state" where
  "log_exception e msg s = s\<lparr>log_exceptions := log_exceptions s @ [(e, msg)]\<rparr>"

text \<open>Calling a property: a value that is not a function throws a \<open>TypeError\<close>.\<close>

fun call_member :: "member \<Rightarrow> bsi_state \<Rightarrow> bsi_state outcome" where
  "call_member (Method m) s = m s"
| "call_member (NotFunction v) s = Thrown (JError ''intervalID._betterClearInterval is not a function'') s"
| "call_member Missing s = Thrown (JError ''intervalID._betterClearInterval is not a function'') s"

fun member_truthy :: "member \<Rightarrow> bool" where
  "member_truthy Missing = False"
| "member_truthy (NotFunction v) = truthy v"
| "member_truthy (Method m) = True"

fun betterClearInterval :: "handle \<Rightarrow> bsi_state \<Rightarrow> bsi_state outcome" where
  "betterClearInterval NoHandle s = Normal s"
| "betterClearInterval (Handle m) s =
     (if member_truthy m
      then (case call_member m s of
              Normal s' \<Rightarrow> Normal s'
            | Thrown e s' \<Rightarrow> Normal (log_exception e ''_betterClearInterval() threw an exception!?'' s'))
      else Normal s)"

text \<open>
  What can happen to a running interval: \<open>func\<close> (or whoever kept the continuation) invokes
  the continuation, the event loop fires a pending timer, which runs \<open>funcWrapper\<close>, or a
  caller applies \<open>betterClearInterval\<close> to the handle.
\<close>

datatype bsi_event = Continuation | TimerFires nat | Cancel

fun bsi_step :: "nat \<Rightarrow> handle \<Rightarrow> bsi_state outcome \<Rightarrow> bsi_event \<Rightarrow> bsi_state outcome" where
  "bsi_step delay h (Thrown e s) ev = Thrown e s"
| "bsi_step delay h (Normal s) Continuation = Normal (bsi_callback delay s)"
| "bsi_step delay h (Normal s) (TimerFires tid) =
     (case timer_pending (bsi_timers s) tid of
        None \<Rightarrow> Normal s
      | Some d \<Rightarrow> Normal (funcWrapper (s\<lparr>bsi_timers := clearTimeout (Some tid) (bsi_timers s)\<rparr>)))"
| "bsi_step delay h (Normal s) Cancel = betterClearInterval h s"

definition bsi_run :: "nat \<Rightarrow> handle \<Rightarrow> bsi_state \<Rightarrow> bsi_event list \<Rightarrow> bsi_state outcome" where
  "bsi_run delay h s evs = foldl (bsi_step delay h) (Normal s) evs"

text \<open>A state in which no timer of the interval is pending, as while \<open>func\<close> executes.\<close>

definition no_timer_pending :: "bsi_state \<Rightarrow> bool" where
  "no_timer_pending s =
     (case timeoutId s of None \<Rightarrow> True | Some tid \<Rightarrow> timer_pending (bsi_timers s) tid = None)"

text \<open>The states after a cancellation: not running, and the last timer set is not pending.\<close>

definition cancelled :: "bsi_state \<Rightarrow> bool" where
  "cancelled s = (\<not> isRunning s \<and> no_timer_pending s)"

section \<open>sequentializePromises\<close>

text \<open>
  A promise of the input is known by how it settles, if ever. A factory has a name, by which
  its invocation is observed, and either throws or returns a promise.
\<close>

datatype 'a settlement = Fulfilled 'a | Rejected js_value | Forever

datatype promise_or_func =
  Promise "js_value settlement"
| Factory nat "js_value + js_value settlement"

datatype seq_event = Invoked nat | Awaited "js_value settlement"

text \<open>
  The \<open>for\<close> loop. The trace records, in order, each invocation of a factory and each
  \<open>await\<close> with what it observed. An \<open>await\<close> of a promise that never settles never
  returns, and the promise of the \<open>async\<close> function stays pending.
\<close>

fun sequentializePromises_loop ::
  "promise_or_func list \<Rightarrow> js_value list \<Rightarrow> seq_event list
     \<Rightarrow> js_value list settlement \<times> seq_event list" where
  "sequentializePromises_loop [] results tr = (Fulfilled results, tr)"
| "sequentializePromises_loop (Promise p # rest) results tr =
     (case p of
        Fulfilled v \<Rightarrow> sequentializePromises_loop rest (results @ [v]) (tr @ [Awaited p])
      | Rejected e \<Rightarrow> (Rejected e, tr @ [Awaited p])
      | Forever \<Rightarrow> (Forever, tr @ [Awaited p]))"
| "sequentializePromises_loop (Factory n body # rest) results tr =
     (case body of
        Inl e \<Rightarrow> (Rejected e, tr @ [Invoked n])
      | Inr p \<Rightarrow>
         (case p of
            Fulfilled v \<Rightarrow>
              sequentializePromises_loop rest (results @ [v]) (tr @ [Invoked n, Awaited p])
          | Rejected e \<Rightarrow> (Rejected e, tr @ [Invoked n, Awaited p])
          | Forever \<Rightarrow> (Forever, tr @ [Invoked n, Awaited p])))"

definition sequentializePromises ::
  "promise_or_func list \<Rightarrow> js_value list settlement \<times> seq_event list" where
  "sequentializePromises promises =
     (if length promises = 0 then (Fulfilled [], [])
      else sequentializePromises_loop promises [] [])"

text \<open>How an item of the input ends, and what it leaves in the trace.\<close>

fun item_settlement :: "promise_or_func \<Rightarrow> js_value settlement" where
  "item_settlement (Promise p) = p"
| "item_settlement (Factory n (Inl e)) = Rejected e"
| "item_settlement (Factory n (Inr p)) = p"

fun item_trace :: "promise_or_func \<Rightarrow> seq_event list" where
  "item_trace (Promise p) = [Awaited p]"
| "item_trace (Factory n (Inl e)) = [Invoked n]"
| "item_trace (Factory n (Inr p)) = [Invoked n, Awaited p]"

fun invoked_factories :: "seq_event list \<Rightarrow> nat list" where
  "invoked_factories [] = []"
| "invoked_factories (Invoked n # tr) = n # invoked_factories tr"
| "invoked_factories (Awaited p # tr) = invoked_factories tr"

fun factories_of :: "promise_or_func list \<Rightarrow> nat list" where
  "factories_of [] = []"
| "factories_of (Promise p # rest) = factories_of rest"
| "factories_of (Factory n body # rest) = n # factories_of rest"

section \<open>promisifyServerListen\<close>

text \<open>
  The two closures \<open>onError\<close> and \<open>onListening\<close> of one call, and any other listener
  that somebody else has registered on the server.
\<close>

datatype handler = OnError | OnListening | Foreign nat

datatype server_call = On string handler | RemoveListener string handler | Listen nat

text \<open>
  The interface \<open>Server\<close>: three methods over a state of the server's own; each returns or
  throws.
\<close>

record 's server =
  server_on :: "string \<Rightarrow> handler \<Rightarrow> 's \<Rightarrow> 's outcome"
  server_removeListener :: "string \<Rightarrow> handler \<Rightarrow> 's \<Rightarrow> 's outcome"
  server_listen :: "nat \<Rightarrow> 's \<Rightarrow> 's outcome"

text \<open>
  The server's state, the calls the code has made on the server so far, the calls made on
  \<open>resolve\<close> and \<open>reject\<close> of the returned promise, and the entries written with
  \<open>log.exception\<close> of the module's \<open>log\<close>. Only the first call of \<open>resolve\<close> or
  \<open>reject\<close> settles a promise; the later ones have no effect. The methods of the server
  act on the server's state.
\<close>

record 's psl_state =
  server_state :: 's
  psl_calls :: "server_call list"
  psl_settled :: "settle_call list"
  psl_log :: "(js_value \<times> string) list"


definition call_server ::
  "('s \<Rightarrow> 's outcome) \<Rightarrow> server_call \<Rightarrow> 's psl_state \<Rightarrow> 's psl_state outcome" where
  "call_server method c w =
     (case method (server_state w) of
        Normal s' \<Rightarrow> Normal (w\<lparr>server_state := s', psl_calls := psl_calls w @ [c]\<rparr>)
      | Thrown e s' \<Rightarrow> Thrown e (w\<lparr>server_state := s', psl_calls := psl_calls w @ [c]\<rparr>))"

definition removeListeners :: "'s server \<Rightarrow> 's psl_state \<Rightarrow> 's psl_state outcome" where
  "removeListeners srv w =
     and_then
       (call_server (server_removeListener srv ''error'' OnError)
          (RemoveListener ''error'' OnError) w)
       (call_server (server_removeListener srv ''listening'' OnListening)
          (RemoveListener ''listening'' OnListening))"

definition onError :: "'s server \<Rightarrow> js_value \<Rightarrow> 's psl_state \<Rightarrow> 's psl_state outcome" where
  "onError srv err w =
     and_then (removeListeners srv w)
       (\<lambda>w. Normal (w\<lparr>psl_settled := psl_settled w @ [Reject err]\<rparr>))"

definition onListening :: "'s server \<Rightarrow> 's psl_state \<Rightarrow> 's psl_state outcome" where
  "onListening srv w =
     and_then (removeListeners srv w)
       (\<lambda>w. Normal (w\<lparr>psl_settled := psl_settled w @ [Resolve JUndefined]\<rparr>))"

definition psl_executor :: "'s server \<Rightarrow> nat \<Rightarrow> 's psl_state \<Rightarrow> 's psl_state outcome" where
  "psl_executor srv port w =
     and_then (call_server (server_on srv ''error'' OnError) (On ''error'' OnError) w)
       (\<lambda>w. and_then
          (call_server (server_on srv ''listening'' OnListening) (On ''listening'' OnListening) w)
          (call_server (server_listen srv port) (Listen port)))"

text \<open>
  \<open>promisifyServerListen(server)(port)\<close>: \<open>new Promise\<close> runs the executor and rejects the
  promise with whatever the executor throws.
\<close>

definition promisifyServerListen :: "'s server \<Rightarrow> nat \<Rightarrow> 's \<Rightarrow> 's psl_state" where
  "promisifyServerListen srv port s =
     (case psl_executor srv port
             \<lparr>server_state = s, psl_calls = [], psl_settled = [], psl_log = []\<rparr> of
        Normal w \<Rightarrow> w
      | Thrown e w \<Rightarrow> w\<lparr>psl_settled := psl_settled w @ [Reject e]\<rparr>)"

text \<open>The server invokes a listener with the argument of the event.\<close>

fun invoke :: "'s server \<Rightarrow> js_value \<Rightarrow> handler \<Rightarrow> 's psl_state \<Rightarrow> 's psl_state outcome" where
  "invoke srv arg OnError w = onError srv arg w"
| "invoke srv arg OnListening w = onListening srv w"
| "invoke srv arg (Foreign n) w = Normal w"

fun outcome_state :: "'w outcome \<Rightarrow> 'w" where
  "outcome_state (Normal w) = w"
| "outcome_state (Thrown e w) = w"

fun is_thrown :: "'w outcome \<Rightarrow> bool" where
  "is_thrown (Normal w) = False"
| "is_thrown (Thrown e w) = True"














text \<open>A server whose \<open>removeListener\<close> throws.\<close>

definition throwing_server :: "unit server" where
  "throwing_server =
     \<lparr>server_on = (\<lambda>ev h s. Normal s),
      server_removeListener = (\<lambda>ev h s. Thrown (JError ''removeListener failed'') s),
      server_listen = (\<lambda>port s. Normal s)\<rparr>"

text \<open>
  A server whose \<open>removeListener\<close> returns for \<open>'error'\<close> and throws for
  \<open>'listening'\<close>; its state counts the calls of \<open>removeListener\<close>.
\<close>

definition late_throwing_server :: "nat server" where
  "late_throwing_server =
     \<lparr>server_on = (\<lambda>ev h s. Normal s),
      server_removeListener =
        (\<lambda>ev h s. if ev = ''listening'' then Thrown (JError ''no such listener'') (Suc s)
                   else Normal (Suc s)),
      server_listen = (\<lambda>port s. Normal s)\<rparr>"

section \<open>Regular expressions\<close>

text \<open>
  The part of the pattern language of \<open>RegExp\<close> that the patterns of this module are
  written in: pattern characters, \<open>.\<close>, escaped punctuation, character classes with ranges
  and negation, groups, alternatives, the quantifiers \<open>*\<close>, \<open>+\<close>, \<open>?\<close> and \<open>{n}\<close>,
  and the assertions \<open>^\<close> and \<open>$\<close>. A string is a list of code units below 256.
\<close>

datatype class_item = CSingle char | CRange char char

datatype regex =
    RChar char
  | RAny
  | RClass bool "class_item list"
  | REmpty
  | RSeq regex regex
  | RAlt regex regex
  | RGroup regex
  | RStar regex
  | RPlus regex
  | ROpt regex
  | RRepeat nat regex
  | RBol
  | REol

definition backslash :: char where
  "backslash = CHR 0x5C"

definition char_code :: "char \<Rightarrow> nat" where
  "char_code c = of_char c"

definition in_range :: "nat \<Rightarrow> nat \<Rightarrow> nat \<Rightarrow> bool" where
  "in_range lo hi n = (lo \<le> n \<and> n \<le> hi)"

text \<open>
  \<open>Canonicalize\<close> with the flag \<open>i\<close>: the upper-case letter of a lower-case letter, for
  the letters that have one below 256; without the flag, the character itself.
\<close>

definition to_upper :: "char \<Rightarrow> char" where
  "to_upper c =
     (let n = char_code c
      in if in_range 97 122 n \<or> (in_range 224 254 n \<and> n \<noteq> 247) then char_of (n - 32) else c)"

definition to_lower :: "char \<Rightarrow> char" where
  "to_lower c =
     (let n = char_code c
      in if in_range 65 90 n \<or> (in_range 192 222 n \<and> n \<noteq> 215) then char_of (n + 32) else c)"

definition canonicalize :: "bool \<Rightarrow> char \<Rightarrow> char" where
  "canonicalize ignoreCase c = (if ignoreCase then to_upper c else c)"

fun item_has :: "class_item \<Rightarrow> char \<Rightarrow> bool" where
  "item_has (CSingle a) c = (a = c)"
| "item_has (CRange a b) c = in_range (char_code a) (char_code b) (char_code c)"

text \<open>
  A class contains a character when some member of the class has the same canonical form.
\<close>

definition class_has :: "bool \<Rightarrow> class_item list \<Rightarrow> char \<Rightarrow> bool" where
  "class_has ignoreCase items c =
     (if ignoreCase
      then list_ex (\<lambda>it. item_has it c \<or> item_has it (to_upper c) \<or> item_has it (to_lower c)) items
      else list_ex (\<lambda>it. item_has it c) items)"

definition line_terminator :: "char \<Rightarrow> bool" where
  "line_terminator c = (char_code c = 10 \<or> char_code c = 13)"

text \<open>
  A cursor is an index into the input with the rest of the input from there. The matcher
  returns every cursor at which a match of the pattern starting at the given cursor can end,
  in the order in which backtracking tries them; the first one is the match.
\<close>

type_synonym cursor = "nat \<times> string"

text \<open>
  Greedy repetition: one more round first, and a round that consumes nothing is refused.
  The first argument bounds the number of rounds by the length of the rest of the input.
\<close>

fun star_loop :: "string \<Rightarrow> (cursor \<Rightarrow> cursor list) \<Rightarrow> cursor \<Rightarrow> cursor list" where
  "star_loop [] f p = [p]"
| "star_loop (x # fuel) f p =
     concat (map (star_loop fuel f) (filter (\<lambda>q. fst p < fst q) (f p))) @ [p]"

fun repeat_loop :: "nat \<Rightarrow> (cursor \<Rightarrow> cursor list) \<Rightarrow> cursor \<Rightarrow> cursor list" where
  "repeat_loop 0 f p = [p]"
| "repeat_loop (Suc n) f p = concat (map (repeat_loop n f) (f p))"

fun match_one :: "(char \<Rightarrow> bool) \<Rightarrow> cursor \<Rightarrow> cursor list" where
  "match_one ok (n, []) = []"
| "match_one ok (n, x # xs) = (if ok x then [(Suc n, xs)] else [])"

fun rmatch :: "bool \<Rightarrow> regex \<Rightarrow> cursor \<Rightarrow> cursor list" where
  "rmatch ic (RChar c) p = match_one (\<lambda>x. canonicalize ic x = canonicalize ic c) p"
| "rmatch ic RAny p = match_one (\<lambda>x. \<not> line_terminator x) p"
| "rmatch ic (RClass neg items) p = match_one (\<lambda>x. class_has ic items x \<noteq> neg) p"
| "rmatch ic REmpty p = [p]"
| "rmatch ic (RSeq a b) p = concat (map (rmatch ic b) (rmatch ic a p))"
| "rmatch ic (RAlt a b) p = rmatch ic a p @ rmatch ic b p"
| "rmatch ic (RGroup r) p = rmatch ic r p"
| "rmatch ic (RStar r) p = star_loop (snd p) (rmatch ic r) p"
| "rmatch ic (RPlus r) p = concat (map (\<lambda>q. star_loop (snd q) (rmatch ic r) q) (rmatch ic r p))"
| "rmatch ic (ROpt r) p = rmatch ic r p @ [p]"
| "rmatch ic (RRepeat n r) p = repeat_loop n (rmatch ic r) p"
| "rmatch ic RBol p = (if fst p = 0 then [p] else [])"
| "rmatch ic REol p = (if snd p = [] then [p] else [])"

text \<open>
  \<open>RegExpBuiltinExec\<close> without the flags \<open>g\<close> and \<open>y\<close>: the first index, from 0 on,
  at which the pattern matches, with the index where that match ends.
\<close>

fun regexp_exec :: "bool \<Rightarrow> regex \<Rightarrow> cursor \<Rightarrow> (nat \<times> nat) option" where
  "regexp_exec ic r (n, s) =
     (case rmatch ic r (n, s) of
        q # qs \<Rightarrow> Some (n, fst q)
      | [] \<Rightarrow> (case s of [] \<Rightarrow> None | x # xs \<Rightarrow> regexp_exec ic r (Suc n, xs)))"

subsection \<open>Reading a pattern\<close>

fun mk_seq :: "regex list \<Rightarrow> regex" where
  "mk_seq [] = REmpty"
| "mk_seq [t] = t"
| "mk_seq (t # ts) = RSeq t (mk_seq ts)"

fun mk_alt :: "regex list \<Rightarrow> regex" where
  "mk_alt [] = REmpty"
| "mk_alt [a] = a"
| "mk_alt (a # as) = RAlt a (mk_alt as)"

text \<open>
  The reader goes through the pattern once. It keeps the finished alternatives and the terms
  of the current alternative, both newest first, for the group being read and, on a stack, for
  the groups around it. A pattern outside the part described above ends in \<open>PError\<close>:
  among them escapes of letters and digits, lazy quantifiers, \<open>{n,m}\<close>, and a closing
  bracket or brace on its own.
\<close>

datatype pmode =
    PNormal
  | PEscape
  | PClassStart
  | PClass bool "class_item list"
  | PClassEscape bool "class_item list"
  | PClassDash bool char "class_item list"
  | PBrace nat bool
  | PError

type_synonym pframe = "regex list \<times> regex list"

type_synonym pstate = "pmode \<times> pframe \<times> pframe list"

fun quantifiable :: "regex \<Rightarrow> bool" where
  "quantifiable (RStar r) = False"
| "quantifiable (RPlus r) = False"
| "quantifiable (ROpt r) = False"
| "quantifiable (RRepeat n r) = False"
| "quantifiable RBol = False"
| "quantifiable REol = False"
| "quantifiable r = True"

fun quantify :: "(regex \<Rightarrow> regex) \<Rightarrow> pframe \<Rightarrow> pframe list \<Rightarrow> pstate" where
  "quantify q (alts, []) stack = (PError, (alts, []), stack)"
| "quantify q (alts, t # ts) stack =
     (if quantifiable t then (PNormal, (alts, q t # ts), stack) else (PError, (alts, t # ts), stack))"

definition push_term :: "regex \<Rightarrow> pframe \<Rightarrow> pframe" where
  "push_term t fr = (fst fr, t # snd fr)"

definition close_frame :: "pframe \<Rightarrow> regex" where
  "close_frame fr = mk_alt (rev (mk_seq (rev (snd fr)) # fst fr))"

definition is_digit :: "char \<Rightarrow> bool" where
  "is_digit c = in_range 48 57 (char_code c)"

definition is_alnum :: "char \<Rightarrow> bool" where
  "is_alnum c = (in_range 48 57 (char_code c) \<or> in_range 65 90 (char_code c)
     \<or> in_range 97 122 (char_code c))"

fun pnormal :: "char \<Rightarrow> pframe \<Rightarrow> pframe list \<Rightarrow> pstate" where
  "pnormal c fr stack =
     (if c = CHR ''('' then (PNormal, ([], []), fr # stack)
      else if c = CHR '')'' then
        (case stack of
           [] \<Rightarrow> (PError, fr, stack)
         | outer # rest \<Rightarrow> (PNormal, push_term (RGroup (close_frame fr)) outer, rest))
      else if c = CHR ''|'' then (PNormal, (mk_seq (rev (snd fr)) # fst fr, []), stack)
      else if c = CHR ''*'' then quantify RStar fr stack
      else if c = CHR ''+'' then quantify RPlus fr stack
      else if c = CHR ''?'' then quantify ROpt fr stack
      else if c = CHR ''{'' then (PBrace 0 False, fr, stack)
      else if c = CHR ''['' then (PClassStart, fr, stack)
      else if c = backslash then (PEscape, fr, stack)
      else if c = CHR ''.'' then (PNormal, push_term RAny fr, stack)
      else if c = CHR ''^'' then (PNormal, push_term RBol fr, stack)
      else if c = CHR ''$'' then (PNormal, push_term REol fr, stack)
      else if c = CHR ''}'' \<or> c = CHR '']'' then (PError, fr, stack)
      else (PNormal, push_term (RChar c) fr, stack))"

fun pclass :: "bool \<Rightarrow> class_item list \<Rightarrow> char \<Rightarrow> pframe \<Rightarrow> pframe list \<Rightarrow> pstate" where
  "pclass neg items c fr stack =
     (if c = CHR '']'' then (PNormal, push_term (RClass neg (rev items)) fr, stack)
      else if c = backslash then (PClassEscape neg items, fr, stack)
      else if c = CHR ''-'' then
        (case items of
           CSingle a # rest \<Rightarrow> (PClassDash neg a rest, fr, stack)
         | _ \<Rightarrow> (PClass neg (CSingle c # items), fr, stack))
      else (PClass neg (CSingle c # items), fr, stack))"

fun pstep :: "pstate \<Rightarrow> char \<Rightarrow> pstate" where
  "pstep (PNormal, fr, stack) c = pnormal c fr stack"
| "pstep (PEscape, fr, stack) c =
     (if is_alnum c then (PError, fr, stack) else (PNormal, push_term (RChar c) fr, stack))"
| "pstep (PClassStart, fr, stack) c =
     (if c = CHR ''^'' then (PClass True [], fr, stack) else pclass False [] c fr stack)"
| "pstep (PClass neg items, fr, stack) c = pclass neg items c fr stack"
| "pstep (PClassEscape neg items, fr, stack) c =
     (if is_alnum c then (PError, fr, stack) else (PClass neg (CSingle c # items), fr, stack))"
| "pstep (PClassDash neg a items, fr, stack) c =
     (if c = CHR '']'' then
        (PNormal, push_term (RClass neg (rev (CSingle (CHR ''-'') # CSingle a # items))) fr, stack)
      else if c = backslash then (PError, fr, stack)
      else if char_code a \<le> char_code c then (PClass neg (CRange a c # items), fr, stack)
      else (PError, fr, stack))"
| "pstep (PBrace n seen, fr, stack) c =
     (if is_digit c then (PBrace (10 * n + (char_code c - 48)) True, fr, stack)
      else if c = CHR ''}'' \<and> seen then quantify (RRepeat n) fr stack
      else (PError, fr, stack))"
| "pstep (PError, fr, stack) c = (PError, fr, stack)"

fun pfinish :: "pstate \<Rightarrow> regex option" where
  "pfinish (PNormal, fr, []) = Some (close_frame fr)"
| "pfinish other = None"

text \<open>
  \<open>new RegExp(source)\<close>; \<open>None\<close> for a pattern outside the part of the language read
  here, where the constructor throws a \<open>SyntaxError\<close> or needs more of the language.
\<close>

definition RegExp :: "string \<Rightarrow> regex option" where
  "RegExp source = pfinish (foldl pstep (PNormal, ([], []), []) source)"

text \<open>\<open>Array.prototype.join\<close> on strings.\<close>

fun join :: "string \<Rightarrow> string list \<Rightarrow> string" where
  "join sep [] = []"
| "join sep [x] = x"
| "join sep (x # xs) = x @ sep @ join sep xs"

subsection \<open>Matching a string\<close>

text \<open>\<open>String.prototype.match\<close> with a pattern without the flag \<open>g\<close>, made a boolean.\<close>

definition regexp_test :: "bool \<Rightarrow> regex option \<Rightarrow> string \<Rightarrow> bool option" where
  "regexp_test ic re s =
     (case re of None \<Rightarrow> None | Some r \<Rightarrow> Some (regexp_exec ic r (0, s) \<noteq> None))"

text \<open>A match of the pattern that starts at index 0 and ends at the end of the string.\<close>

definition full_match :: "bool \<Rightarrow> regex \<Rightarrow> string \<Rightarrow> bool" where
  "full_match ic r s = list_ex (\<lambda>q. snd q = []) (rmatch ic r (0, s))"

text \<open>The terms, newest first, that the reader builds from a pattern without a top-level bar.\<close>

definition item_terms :: "string \<Rightarrow> regex list" where
  "item_terms x = snd (fst (snd (foldl pstep (PNormal, ([], []), []) x)))"

definition alternative_of :: "string \<Rightarrow> regex" where
  "alternative_of x = mk_seq (rev (item_terms x))"

text \<open>Lower-case letters, digits, dash and underscore: characters that stand for themselves.\<close>

definition plain_char :: "char \<Rightarrow> bool" where
  "plain_char c = (c \<in> set ''abcdefghijklmnopqrstuvwxyz0123456789-_'')"

definition plain_item :: "string \<Rightarrow> bool" where
  "plain_item x = list_all plain_char x"

text \<open>
  An item is framed when the reader, whatever it has read before, builds the terms of the
  item and nothing else.
\<close>

definition framed :: "string \<Rightarrow> bool" where
  "framed x = (\<forall>alts stack.
     foldl pstep (PNormal, (alts, []), stack) x = (PNormal, (alts, item_terms x), stack))"

section \<open>Forbidden usernames\<close>

definition ANONYMOUS_USERNAME :: string where
  "ANONYMOUS_USERNAME = ''anonymous''"

definition FORBIDDEN_USERNAMES_REGEXPS :: "string list" where
  "FORBIDDEN_USERNAMES_REGEXPS = [
    \<comment> \<open>Meteor app routes\<close>
    ''page-not-found'', ''docs'', ''terms-of-use'', ''about'', ''pricing'', ''privacy-policy'',
    ''customers'', ''request-form'', ''request-solution'', ''release-notes'', ''jobs'',
    ''api-reference'', ''video-tutorials'', ''acts'', ''key-value-stores'', ''schedules'',
    ''account'', ''sign-up'', ''sign-in-discourse'', ''admin'', ''documentation'',
    ''change-password'', ''enroll-account'', ''forgot-password'', ''reset-password'',
    ''sign-in'', ''verify-email'', ''live-status'', ''browser-info'', ''webhooks'',
    ''health-check'', ''api'', ''change-log'', ''dashboard'', ''community'', ''crawlers'',
    ''ext'',
    \<comment> \<open>Various strings\<close>
    ''admin'', ''administration'', ''crawler'', ''act'', ''library'', ''lib'', ''apifier'',
    ''team'', ''contact'', ''doc'', ''documentation'', ''for-business'', ''for-developers'',
    ''developers'', ''business'', ''integrations'', ''job'', ''setting'', ''settings'',
    ''privacy'', ''policy'', ''assets'', ''help'', ''config'', ''configuration'', ''terms'',
    ''hiring'', ''hire'', ''status'', ''status-page'', ''solutions'', ''support'', ''market'',
    ''marketplace'', ''download'', ''downloads'', ''username'', ''users'', ''user'', ''login'',
    ''logout'', ''signin'', ''sign'', ''signup'', ''sign-out'', ''signout'', ''plugins'',
    ''plug-ins'', ''reset'', ''password'', ''passwords'', ''square'', ''profile-photos'',
    ''profiles'', ''true'', ''false'', ''js'', ''css'', ''img'', ''images'', ''image'',
    ''partials'', ''fonts'', ''font'', ''dynamic_templates'', ''app'', ''schedules'',
    ''community'', ''storage'', ''storages'', ''account'', ''node_modules'',
    ''bower_components'', ''video'', ''knowledgebase'', ''forum'', ''customers'', ''blog'',
    ''health-check'', ''health'', ''anim'', ''forum_topics.json'', ''forum_categories.json'',
    ''me'', ''you'', ''him'', ''she'', ''it'', ''external'', ''actor'', ''crawler'',
    ''scheduler'', ''api'', ''sdk'', ''puppeteer'', ''webdriver'', ''selenium'',
    ''(selenium.*webdriver)'', ''undefined'', ''page-analyzer'', ''wp-login.php'',
    ''welcome.action'', ''echo'', ''proxy'', ''super-proxy'', ''gdpr'', ''case-studies'',
    ''use-cases'', ''how-to'', ''kb'', ''cookies'', ''cookie-policy'', ''cookies-policy'',
    ''powered-by'', ''run'', ''runs'', ''actor'', ''actors'', ''act'', ''acts'',
    ''success-stories'', ''roadmap'', ''join-marketplace'', ''presskit'', ''press-kit'',
    ''covid-19'', ''covid'', ''covid19'', ''matfyz'', ''ideas'', ''public-actors'',
    ''resources'', ''partners'', ''affiliate'', ''industries'', ''web-scraping'',
    ''custom-solutions'', ''solution-provider'',
    \<comment> \<open>Special files\<close>
    ''index'', ''index'' @ backslash # ''.html'', ''(favicon'' @ backslash # ''.[a-z]+)'',
    ''BingSiteAuth.xml'', ''(google.+'' @ backslash # ''.html)'',
    ''robots'' @ backslash # ''.txt'', ''(sitemap'' @ backslash # ''.[a-z]+)'',
    ''(apple-touch-icon.*)'', ''security-whitepaper'' @ backslash # ''.pdf'',
    \<comment> \<open>All hidden files\<close>
    ''('' @ backslash # ''..*)'',
    \<comment> \<open>File starting with xxx-\<close>
    ''(xxx-.*)'',
    \<comment> \<open>Strings not starting with letter or number\<close>
    ''([^0-9a-z].*)'',
    \<comment> \<open>Strings not ending with letter or number\<close>
    ''(.*[^0-9a-z])'',
    \<comment> \<open>Strings where there's more than one underscore, comma or dash in row\<close>
    ''(.*[_.'' @ backslash # ''-]{2}.*)'',
    \<comment> \<open>Reserved usernames from the reserved-usernames list\<close>
    ''0'', ''about'', ''access'', ''account'', ''accounts'', ''activate'', ''activities'',
    ''activity'', ''ad'', ''add'', ''address'', ''adm'', ''admin'', ''administration'',
    ''administrator'', ''ads'', ''adult'', ''advertising'', ''affiliate'', ''affiliates'',
    ''ajax'', ''all'', ''alpha'', ''analysis'', ''analytics'', ''android'', ''anon'',
    ''anonymous'', ''api'', ''app'', ''apps'', ''archive'', ''archives'', ''article'', ''asct'',
    ''asset'', ''atom'', ''auth'', ''authentication'', ''avatar'', ''backup'',
    ''balancer-manager'', ''banner'', ''banners'', ''beta'', ''billing'', ''bin'', ''blog'',
    ''blogs'', ''board'', ''book'', ''bookmark'', ''bot'', ''bots'', ''bug'', ''business'',
    ''cache'', ''cadastro'', ''calendar'', ''call'', ''campaign'', ''cancel'', ''captcha'',
    ''career'', ''careers'', ''cart'', ''categories'', ''category'', ''cgi'', ''cgi-bin'',
    ''changelog'', ''chat'', ''check'', ''checking'', ''checkout'', ''client'', ''cliente'',
    ''clients'', ''code'', ''codereview'', ''comercial'', ''comment'', ''comments'',
    ''communities'', ''community'', ''company'', ''compare'', ''compras'', ''config'',
    ''configuration'', ''connect'', ''contact'', ''contact-us'', ''contact_us'', ''contactus'',
    ''contest'', ''contribute'', ''corp'', ''create'', ''css'', ''dashboard'', ''data'', ''db'',
    ''default'', ''delete'', ''demo'', ''design'', ''designer'', ''destroy'', ''dev'', ''devel'',
    ''developer'', ''developers'', ''diagram'', ''diary'', ''dict'', ''dictionary'', ''die'',
    ''dir'', ''direct_messages'', ''directory'', ''dist'', ''doc'', ''docs'', ''documentation'',
    ''domain'', ''download'', ''downloads'', ''ecommerce'', ''edit'', ''editor'', ''edu'',
    ''education'', ''email'', ''employment'', ''empty'', ''end'', ''enterprise'', ''entries'',
    ''entry'', ''error'', ''errors'', ''eval'', ''event'', ''exit'', ''explore'', ''facebook'',
    ''faq'', ''favorite'', ''favorites'', ''feature'', ''features'', ''feed'', ''feedback'',
    ''feeds'', ''file'', ''files'', ''first'', ''flash'', ''fleet'', ''fleets'', ''flog'',
    ''follow'', ''followers'', ''following'', ''forgot'', ''form'', ''forum'', ''forums'',
    ''founder'', ''free'', ''friend'', ''friends'', ''ftp'', ''gadget'', ''gadgets'', ''game'',
    ''games'', ''get'', ''gift'', ''gifts'', ''gist'', ''github'', ''graph'', ''group'',
    ''groups'', ''guest'', ''guests'', ''help'', ''home'', ''homepage'', ''host'', ''hosting'',
    ''hostmaster'', ''hostname'', ''howto'', ''hpg'', ''html'', ''http'', ''httpd'', ''https'',
    ''i'', ''iamges'', ''icon'', ''icons'', ''id'', ''idea'', ''ideas'', ''image'', ''images'',
    ''imap'', ''img'', ''index'', ''indice'', ''info'', ''information'', ''inquiry'',
    ''instagram'', ''intranet'', ''invitations'', ''invite'', ''ipad'', ''iphone'', ''irc'',
    ''is'', ''issue'', ''issues'', ''it'', ''item'', ''items'', ''java'', ''javascript'',
    ''job'', ''jobs'', ''join'', ''js'', ''json'', ''jump'', ''knowledgebase'', ''language'',
    ''languages'', ''last'', ''ldap-status'', ''legal'', ''license'', ''link'', ''links'',
    ''linux'', ''list'', ''lists'', ''log'', ''log-in'', ''log-out'', ''log_in'', ''log_out'',
    ''login'', ''logout'', ''logs'', ''m'', ''mac'', ''mail'', ''mail1'', ''mail2'', ''mail3'',
    ''mail4'', ''mail5'', ''mailer'', ''mailing'', ''maintenance'', ''manager'', ''manual'',
    ''map'', ''maps'', ''marketing'', ''master'', ''me'', ''media'', ''member'', ''members'',
    ''message'', ''messages'', ''messenger'', ''microblog'', ''microblogs'', ''mine'', ''mis'',
    ''mob'', ''mobile'', ''movie'', ''movies'', ''mp3'', ''msg'', ''msn'', ''music'',
    ''musicas'', ''mx'', ''my'', ''mysql'', ''name'', ''named'', ''nan'', ''navi'',
    ''navigation'', ''net'', ''network'', ''new'', ''news'', ''newsletter'', ''nick'',
    ''nickname'', ''notes'', ''noticias'', ''notification'', ''notifications'', ''notify'',
    ''ns'', ''ns1'', ''ns10'', ''ns2'', ''ns3'', ''ns4'', ''ns5'', ''ns6'', ''ns7'', ''ns8'',
    ''ns9'', ''null'', ''oauth'', ''oauth_clients'', ''offer'', ''offers'', ''official'',
    ''old'', ''online'', ''openid'', ''operator'', ''order'', ''orders'', ''organization'',
    ''organizations'', ''overview'', ''owner'', ''owners'', ''page'', ''pager'', ''pages'',
    ''panel'', ''password'', ''payment'', ''perl'', ''phone'', ''photo'', ''photoalbum'',
    ''photos'', ''php'', ''phpmyadmin'', ''phppgadmin'', ''phpredisadmin'', ''pic'', ''pics'',
    ''ping'', ''plan'', ''plans'', ''plugin'', ''plugins'', ''policy'', ''pop'', ''pop3'',
    ''popular'', ''portal'', ''post'', ''postfix'', ''postmaster'', ''posts'', ''pr'',
    ''premium'', ''press'', ''price'', ''pricing'', ''privacy'', ''privacy-policy'',
    ''privacy_policy'', ''privacypolicy'', ''private'', ''product'', ''products'', ''profile'',
    ''project'', ''projects'', ''promo'', ''pub'', ''public'', ''purpose'', ''put'', ''python'',
    ''query'', ''random'', ''ranking'', ''read'', ''readme'', ''recent'', ''recruit'',
    ''recruitment'', ''register'', ''registration'', ''release'', ''remove'', ''replies'',
    ''report'', ''reports'', ''repositories'', ''repository'', ''req'', ''request'',
    ''requests'', ''reset'', ''roc'', ''root'', ''rss'', ''ruby'', ''rule'', ''sag'', ''sale'',
    ''sales'', ''sample'', ''samples'', ''save'', ''school'', ''script'', ''scripts'',
    ''search'', ''secure'', ''security'', ''self'', ''send'', ''server'', ''server-info'',
    ''server-status'', ''service'', ''services'', ''session'', ''sessions'', ''setting'',
    ''settings'', ''setup'', ''share'', ''shop'', ''show'', ''sign-in'', ''sign-up'',
    ''sign_in'', ''sign_up'', ''signin'', ''signout'', ''signup'', ''site'', ''sitemap'',
    ''sites'', ''smartphone'', ''smtp'', ''soporte'', ''source'', ''spec'', ''special'', ''sql'',
    ''src'', ''ssh'', ''ssl'', ''ssladmin'', ''ssladministrator'', ''sslwebmaster'', ''staff'',
    ''stage'', ''staging'', ''start'', ''stat'', ''state'', ''static'', ''stats'', ''status'',
    ''store'', ''stores'', ''stories'', ''style'', ''styleguide'', ''stylesheet'',
    ''stylesheets'', ''subdomain'', ''subscribe'', ''subscriptions'', ''suporte'', ''support'',
    ''svn'', ''swf'', ''sys'', ''sysadmin'', ''sysadministrator'', ''system'', ''tablet'',
    ''tablets'', ''tag'', ''talk'', ''task'', ''tasks'', ''team'', ''teams'', ''tech'',
    ''telnet'', ''term'', ''terms'', ''terms-of-service'', ''terms_of_service'',
    ''termsofservice'', ''test'', ''test1'', ''test2'', ''test3'', ''teste'', ''testing'',
    ''tests'', ''theme'', ''themes'', ''thread'', ''threads'', ''tmp'', ''todo'', ''tool'',
    ''tools'', ''top'', ''topic'', ''topics'', ''tos'', ''tour'', ''translations'', ''trends'',
    ''tutorial'', ''tux'', ''tv'', ''twitter'', ''undef'', ''unfollow'', ''unsubscribe'',
    ''update'', ''upload'', ''uploads'', ''url'', ''usage'', ''user'', ''username'', ''users'',
    ''usuario'', ''vendas'', ''ver'', ''version'', ''video'', ''videos'', ''visitor'', ''watch'',
    ''weather'', ''web'', ''webhook'', ''webhooks'', ''webmail'', ''webmaster'', ''website'',
    ''websites'', ''welcome'', ''widget'', ''widgets'', ''wiki'', ''win'', ''windows'', ''word'',
    ''work'', ''works'', ''workshop'', ''ww'', ''wws'', ''www'', ''www1'', ''www2'', ''www3'',
    ''www4'', ''www5'', ''www6'', ''www7'', ''wwws'', ''wwww'', ''xfn'', ''xml'', ''xmpp'',
    ''xpg'', ''xxx'', ''yaml'', ''year'', ''yml'', ''you'', ''yourdomain'', ''yourname'',
    ''yoursite'', ''yourusername'']"

text \<open>The items of the list that are not plain, in the order of the list.\<close>

definition special_items :: "string list" where
  "special_items =
     [''forum_topics.json'',
      ''forum_categories.json'',
      ''(selenium.*webdriver)'',
      ''wp-login.php'',
      ''welcome.action'',
      ''index'' @ backslash # ''.html'',
      ''(favicon'' @ backslash # ''.[a-z]+)'',
      ''BingSiteAuth.xml'',
      ''(google.+'' @ backslash # ''.html)'',
      ''robots'' @ backslash # ''.txt'',
      ''(sitemap'' @ backslash # ''.[a-z]+)'',
      ''(apple-touch-icon.*)'',
      ''security-whitepaper'' @ backslash # ''.pdf'',
      ''('' @ backslash # ''..*)'',
      ''(xxx-.*)'',
      ''([^0-9a-z].*)'',
      ''(.*[^0-9a-z])'',
      ''(.*[_.'' @ backslash # ''-]{2}.*)'']"

definition FORBIDDEN_REGEXP :: "regex option" where
  "FORBIDDEN_REGEXP =
     RegExp (''^('' @ ANONYMOUS_USERNAME @ ''|'' @ join ''|'' FORBIDDEN_USERNAMES_REGEXPS @ '')$'')"

text \<open>\<open>None\<close> when the module could not build \<open>FORBIDDEN_REGEXP\<close>.\<close>

definition isForbiddenUsername :: "string \<Rightarrow> bool option" where
  "isForbiddenUsername username = regexp_test True FORBIDDEN_REGEXP username"

section \<open>Identity generation: deterministicUniqueId\<close>

text \<open>
  A JavaScript string is a sequence of UTF-16 code units. \<open>hash.update(key)\<close> hashes the
  UTF-8 encoding of the string, in which a surrogate without its partner becomes U+FFFD.
\<close>

type_synonym u16 = "16 word"

type_synonym u32 = "32 word"

definition utf8_of_code_point :: "int \<Rightarrow> u8 list" where
  "utf8_of_code_point cp =
     (if cp < 0x80 then [of_int cp]
      else if cp < 0x800 then [of_int (0xC0 + cp div 64), of_int (0x80 + cp mod 64)]
      else if cp < 0x10000 then
        [of_int (0xE0 + cp div 4096), of_int (0x80 + cp div 64 mod 64), of_int (0x80 + cp mod 64)]
      else
        [of_int (0xF0 + cp div 262144), of_int (0x80 + cp div 4096 mod 64),
         of_int (0x80 + cp div 64 mod 64), of_int (0x80 + cp mod 64)])"

definition high_surrogate :: "int \<Rightarrow> bool" where
  "high_surrogate n = (0xD800 \<le> n \<and> n \<le> 0xDBFF)"

definition low_surrogate :: "int \<Rightarrow> bool" where
  "low_surrogate n = (0xDC00 \<le> n \<and> n \<le> 0xDFFF)"

fun utf8_encode :: "u16 list \<Rightarrow> u8 list" where
  "utf8_encode [] = []"
| "utf8_encode [c] =
     (if high_surrogate (uint c) \<or> low_surrogate (uint c) then utf8_of_code_point 0xFFFD
      else utf8_of_code_point (uint c))"
| "utf8_encode (c # d # rest) =
     (if high_surrogate (uint c) then
        (if low_surrogate (uint d)
         then utf8_of_code_point (0x10000 + (uint c - 0xD800) * 1024 + (uint d - 0xDC00))
                @ utf8_encode rest
         else utf8_of_code_point 0xFFFD @ utf8_encode (d # rest))
      else if low_surrogate (uint c) then utf8_of_code_point 0xFFFD @ utf8_encode (d # rest)
      else utf8_of_code_point (uint c) @ utf8_encode (d # rest))"

text \<open>A string literal of the program, all of whose characters are ASCII.\<close>

definition js_string :: "string \<Rightarrow> u16 list" where
  "js_string s = map (\<lambda>c. of_nat (of_char c)) s"

subsection \<open>SHA-256\<close>

text \<open>\<open>crypto.createHash('sha256')\<close>: the hash function of FIPS 180-4.\<close>

text \<open>A 32-bit constant, written as its upper and its lower 16 bits.\<close>

definition hl :: "u32 \<Rightarrow> u32 \<Rightarrow> u32" where
  "hl upper lower = push_bit 16 upper OR lower"

text \<open>
  The constants of the rounds (from the cube roots of the first 64 primes) and the initial
  hash value (from the square roots of the first 8 primes).
\<close>

definition K256 :: "u32 list" where
  "K256 =
     [
      hl 0x428a 0x2f98, hl 0x7137 0x4491, hl 0xb5c0 0xfbcf, hl 0xe9b5 0xdba5,
      hl 0x3956 0xc25b, hl 0x59f1 0x11f1, hl 0x923f 0x82a4, hl 0xab1c 0x5ed5,
      hl 0xd807 0xaa98, hl 0x1283 0x5b01, hl 0x2431 0x85be, hl 0x550c 0x7dc3,
      hl 0x72be 0x5d74, hl 0x80de 0xb1fe, hl 0x9bdc 0x06a7, hl 0xc19b 0xf174,
      hl 0xe49b 0x69c1, hl 0xefbe 0x4786, hl 0x0fc1 0x9dc6, hl 0x240c 0xa1cc,
      hl 0x2de9 0x2c6f, hl 0x4a74 0x84aa, hl 0x5cb0 0xa9dc, hl 0x76f9 0x88da,
      hl 0x983e 0x5152, hl 0xa831 0xc66d, hl 0xb003 0x27c8, hl 0xbf59 0x7fc7,
      hl 0xc6e0 0x0bf3, hl 0xd5a7 0x9147, hl 0x06ca 0x6351, hl 0x1429 0x2967,
      hl 0x27b7 0x0a85, hl 0x2e1b 0x2138, hl 0x4d2c 0x6dfc, hl 0x5338 0x0d13,
      hl 0x650a 0x7354, hl 0x766a 0x0abb, hl 0x81c2 0xc92e, hl 0x9272 0x2c85,
      hl 0xa2bf 0xe8a1, hl 0xa81a 0x664b, hl 0xc24b 0x8b70, hl 0xc76c 0x51a3,
      hl 0xd192 0xe819, hl 0xd699 0x0624, hl 0xf40e 0x3585, hl 0x106a 0xa070,
      hl 0x19a4 0xc116, hl 0x1e37 0x6c08, hl 0x2748 0x774c, hl 0x34b0 0xbcb5,
      hl 0x391c 0x0cb3, hl 0x4ed8 0xaa4a, hl 0x5b9c 0xca4f, hl 0x682e 0x6ff3,
      hl 0x748f 0x82ee, hl 0x78a5 0x636f, hl 0x84c8 0x7814, hl 0x8cc7 0x0208,
      hl 0x90be 0xfffa, hl 0xa450 0x6ceb, hl 0xbef9 0xa3f7, hl 0xc671 0x78f2]"

definition H256 :: "u32 list" where
  "H256 =
     [
      hl 0x6a09 0xe667, hl 0xbb67 0xae85, hl 0x3c6e 0xf372, hl 0xa54f 0xf53a,
      hl 0x510e 0x527f, hl 0x9b05 0x688c, hl 0x1f83 0xd9ab, hl 0x5be0 0xcd19]"


definition rotr :: "nat \<Rightarrow> u32 \<Rightarrow> u32" where
  "rotr n x = drop_bit n x OR push_bit (32 - n) x"

definition Ch :: "u32 \<Rightarrow> u32 \<Rightarrow> u32 \<Rightarrow> u32" where
  "Ch x y z = (x AND y) XOR (NOT x AND z)"

definition Maj :: "u32 \<Rightarrow> u32 \<Rightarrow> u32 \<Rightarrow> u32" where
  "Maj x y z = (x AND y) XOR (x AND z) XOR (y AND z)"

definition Sigma0 :: "u32 \<Rightarrow> u32" where
  "Sigma0 x = rotr 2 x XOR rotr 13 x XOR rotr 22 x"

definition Sigma1 :: "u32 \<Rightarrow> u32" where
  "Sigma1 x = rotr 6 x XOR rotr 11 x XOR rotr 25 x"

definition sigma0 :: "u32 \<Rightarrow> u32" where
  "sigma0 x = rotr 7 x XOR rotr 18 x XOR drop_bit 3 x"

definition sigma1 :: "u32 \<Rightarrow> u32" where
  "sigma1 x = rotr 17 x XOR rotr 19 x XOR drop_bit 10 x"

text \<open>
  Padding: the bit 1, zeros up to 56 modulo 64 bytes, and the length in bits as 64 bits,
  most significant byte first.
\<close>

definition be64 :: "64 word \<Rightarrow> u8 list" where
  "be64 w = map (\<lambda>i. ucast (drop_bit (8 * (7 - i)) w)) [0..<8]"

definition sha256_pad :: "u8 list \<Rightarrow> u8 list" where
  "sha256_pad msg =
     msg @ [0x80] @ replicate ((119 - length msg mod 64) mod 64) 0
       @ be64 (of_nat (8 * length msg))"

fun be32_words :: "u8 list \<Rightarrow> u32 list" where
  "be32_words (a # b # c # d # rest) =
     (push_bit 24 (ucast a) OR push_bit 16 (ucast b) OR push_bit 8 (ucast c) OR ucast d)
       # be32_words rest"
| "be32_words rest = []"

text \<open>
  The message schedule, newest word first: word \<open>t\<close> is computed from the words
  \<open>t - 2\<close>, \<open>t - 7\<close>, \<open>t - 15\<close> and \<open>t - 16\<close>.
\<close>

fun schedule :: "nat \<Rightarrow> u32 list \<Rightarrow> u32 list" where
  "schedule 0 w = w"
| "schedule (Suc n) w =
     schedule n ((sigma1 (w ! 1) + w ! 6 + sigma0 (w ! 14) + w ! 15) # w)"

type_synonym sha_state = "u32 \<times> u32 \<times> u32 \<times> u32 \<times> u32 \<times> u32 \<times> u32 \<times> u32"

fun sha_round :: "sha_state \<Rightarrow> u32 \<times> u32 \<Rightarrow> sha_state" where
  "sha_round (a, b, c, d, e, f, g, h) (k, w) =
     (let t1 = h + Sigma1 e + Ch e f g + k + w;
          t2 = Sigma0 a + Maj a b c
      in (t1 + t2, a, b, c, d + t1, e, f, g))"

fun sha_add :: "sha_state \<Rightarrow> sha_state \<Rightarrow> sha_state" where
  "sha_add (a, b, c, d, e, f, g, h) (a', b', c', d', e', f', g', h') =
     (a + a', b + b', c + c', d + d', e + e', f + f', g + g', h + h')"

definition sha_compress :: "sha_state \<Rightarrow> u8 list \<Rightarrow> sha_state" where
  "sha_compress st block =
     sha_add st (foldl sha_round st (zip K256 (rev (schedule 48 (rev (be32_words block))))))"

fun sha_blocks :: "nat \<Rightarrow> sha_state \<Rightarrow> u8 list \<Rightarrow> sha_state" where
  "sha_blocks 0 st bytes = st"
| "sha_blocks (Suc n) st bytes = sha_blocks n (sha_compress st (take 64 bytes)) (drop 64 bytes)"

definition be32_bytes :: "u32 \<Rightarrow> u8 list" where
  "be32_bytes w = [ucast (drop_bit 24 w), ucast (drop_bit 16 w), ucast (drop_bit 8 w), ucast w]"

fun sha_digest :: "sha_state \<Rightarrow> u8 list" where
  "sha_digest (a, b, c, d, e, f, g, h) =
     be32_bytes a @ be32_bytes b @ be32_bytes c @ be32_bytes d
       @ be32_bytes e @ be32_bytes f @ be32_bytes g @ be32_bytes h"

definition sha256 :: "u8 list \<Rightarrow> u8 list" where
  "sha256 msg =
     (let padded = sha256_pad msg
      in sha_digest (sha_blocks (length padded div 64)
           (H256 ! 0, H256 ! 1, H256 ! 2, H256 ! 3, H256 ! 4, H256 ! 5, H256 ! 6, H256 ! 7)
           padded))"

subsection \<open>Base64\<close>

definition base64_alphabet :: string where
  "base64_alphabet = ''ABCDEFGHIJKLMNOPQRSTUVWXYZabcdefghijklmnopqrstuvwxyz0123456789+/''"

definition base64_char :: "nat \<Rightarrow> char" where
  "base64_char n = base64_alphabet ! (n mod 64)"

text \<open>\<open>digest('base64')\<close>: three bytes give four characters; the last group is padded.\<close>

fun base64 :: "u8 list \<Rightarrow> string" where
  "base64 [] = []"
| "base64 [a] =
     [base64_char (unat a div 4), base64_char (unat a mod 4 * 16), CHR ''='', CHR ''='']"
| "base64 [a, b] =
     [base64_char (unat a div 4), base64_char (unat a mod 4 * 16 + unat b div 16),
      base64_char (unat b mod 16 * 4), CHR ''='']"
| "base64 (a # b # c # rest) =
     [base64_char (unat a div 4), base64_char (unat a mod 4 * 16 + unat b div 16),
      base64_char (unat b mod 16 * 4 + unat c div 64), base64_char (unat c mod 64)]
       @ base64 rest"

subsection \<open>String methods\<close>

text \<open>
  \<open>String.prototype.replace\<close> with a pattern with the flag \<open>g\<close> and a replacement
  without \<open>$\<close>: every match, found from where the previous one ended, is replaced; after an
  empty match the search moves on by one character. The third argument counts the characters
  of the current match that are still to be skipped.
\<close>

fun replace_loop :: "regex \<Rightarrow> string \<Rightarrow> nat \<Rightarrow> nat \<Rightarrow> string \<Rightarrow> string" where
  "replace_loop r new skip n [] = (if skip = 0 \<and> rmatch False r (n, []) \<noteq> [] then new else [])"
| "replace_loop r new skip n (c # cs) =
     (if 0 < skip then replace_loop r new (skip - 1) (Suc n) cs
      else
        (case rmatch False r (n, c # cs) of
           [] \<Rightarrow> c # replace_loop r new 0 (Suc n) cs
         | q # qs \<Rightarrow>
             if fst q = n then new @ c # replace_loop r new 0 (Suc n) cs
             else new @ replace_loop r new (fst q - n - 1) (Suc n) cs))"

definition replace_all :: "regex \<Rightarrow> string \<Rightarrow> string \<Rightarrow> string" where
  "replace_all r new s = replace_loop r new 0 0 s"

text \<open>\<open>String.prototype.substr(start, length)\<close> on integers.\<close>

definition substr :: "int \<Rightarrow> int \<Rightarrow> string \<Rightarrow> string" where
  "substr start len s =
     (let size = int (length s);
          from = (if start < 0 then max (size + start) 0 else min start size);
          count = min (max len 0) (size - from)
      in take (nat count) (drop (nat from) s))"

subsection \<open>deterministicUniqueId\<close>

text \<open>The pattern \<open>/(\+|\/|=)/g\<close>.\<close>

definition plus_slash_equals :: regex where
  "plus_slash_equals = RGroup (RAlt (RChar (CHR ''+'')) (RAlt (RChar (CHR ''/'')) (RChar (CHR ''=''))))"

text \<open>The parameter \<open>length = 17\<close>: \<open>None\<close> is the call without the argument.\<close>

definition deterministicUniqueId :: "u16 list \<Rightarrow> int option \<Rightarrow> string" where
  "deterministicUniqueId key len =
     substr 0 (case len of None \<Rightarrow> 17 | Some n \<Rightarrow> n)
       (replace_all plus_slash_equals ''x'' (base64 (sha256 (utf8_encode key))))"

subsection \<open>The Hash object\<close>

text \<open>
  The same call with the object of \<open>crypto\<close> made explicit. \<open>crypto.createHash('sha256')\<close>
  makes a new \<open>Hash\<close> object; \<open>update(key)\<close> appends the UTF-8 encoding of the string to
  the data of the object and returns the object; \<open>digest('base64')\<close> finishes the object and
  returns the digest of its data in base64. \<open>update\<close> and \<open>digest\<close> throw when the object
  is finished. The state of \<open>crypto\<close> is the objects made so far, each under its number;
  a number under which there is no object is no \<open>Hash\<close> object, and the methods throw.
\<close>

record hash_object =
  hash_data :: "u8 list"
  hash_finished :: bool

record crypto =
  hash_count :: nat
  hash_objects :: "nat \<rightharpoonup> hash_object"

definition createHash :: "crypto \<Rightarrow> nat \<times> crypto" where
  "createHash c =
     (hash_count c,
      c\<lparr>hash_count := Suc (hash_count c),
        hash_objects := (hash_objects c)(hash_count c \<mapsto> \<lparr>hash_data = [], hash_finished = False\<rparr>)\<rparr>)"

definition hash_update :: "nat \<Rightarrow> u16 list \<Rightarrow> crypto \<Rightarrow> (js_value + nat) \<times> crypto" where
  "hash_update h str c =
     (case hash_objects c h of
        None \<Rightarrow> (Inl (JError ''not a Hash object''), c)
      | Some obj \<Rightarrow>
          if hash_finished obj then (Inl (JError ''Digest already called''), c)
          else (Inr h,
                c\<lparr>hash_objects :=
                    (hash_objects c)(h \<mapsto> obj\<lparr>hash_data := hash_data obj @ utf8_encode str\<rparr>)\<rparr>))"

definition hash_digest :: "nat \<Rightarrow> crypto \<Rightarrow> (js_value + string) \<times> crypto" where
  "hash_digest h c =
     (case hash_objects c h of
        None \<Rightarrow> (Inl (JError ''not a Hash object''), c)
      | Some obj \<Rightarrow>
          if hash_finished obj then (Inl (JError ''Digest already called''), c)
          else (Inr (base64 (sha256 (hash_data obj))),
                c\<lparr>hash_objects := (hash_objects c)(h \<mapsto> obj\<lparr>hash_finished := True\<rparr>)\<rparr>))"

definition deterministicUniqueId_call ::
  "u16 list \<Rightarrow> int option \<Rightarrow> crypto \<Rightarrow> (js_value + string) \<times> crypto" where
  "deterministicUniqueId_call key len c =
     (let (h, c1) = createHash c
      in case hash_update h key c1 of
           (Inl e, c2) \<Rightarrow> (Inl e, c2)
         | (Inr h', c2) \<Rightarrow>
             (case hash_digest h' c2 of
                (Inl e, c3) \<Rightarrow> (Inl e, c3)
              | (Inr text, c3) \<Rightarrow>
                  (Inr (substr 0 (case len of None \<Rightarrow> 17 | Some n \<Rightarrow> n)
                          (replace_all plus_slash_equals ''x'' text)),
                   c3)))"

subsection \<open>The identifier of the specification\<close>

text \<open>
  Bit strings, most significant bit first: \<open>bits k n\<close> is the \<open>k\<close> lowest bits of
  \<open>n\<close>, \<open>bits_value\<close> the number that a bit string stands for, \<open>octet\<close> the eight
  bits of a byte and \<open>octet_of\<close> the byte of eight bits. \<open>chunks n\<close> cuts a list into
  its groups of \<open>n\<close> elements, in order.
\<close>

fun bits :: "nat \<Rightarrow> int \<Rightarrow> bool list" where
  "bits 0 n = []"
| "bits (Suc k) n = bits k (n div 2) @ [odd n]"

definition bits_value :: "bool list \<Rightarrow> int" where
  "bits_value bs = foldl (\<lambda>n b. 2 * n + (if b then 1 else 0)) 0 bs"

definition octet :: "u8 \<Rightarrow> bool list" where
  "octet b = bits 8 (uint b)"

definition octet_of :: "bool list \<Rightarrow> u8" where
  "octet_of bs = word_of_int (bits_value bs)"

definition chunks :: "nat \<Rightarrow> 'a list \<Rightarrow> 'a list list" where
  "chunks n xs = map (\<lambda>i. take n (drop (n * i) xs)) [0..<length xs div n]"

text \<open>
  UTF-8 (RFC 3629, section 3): a character number up to \<open>7F\<close> is the octet
  \<open>0xxxxxxx\<close>, one up to \<open>7FF\<close> the octets \<open>110xxxxx 10xxxxxx\<close>, one up to
  \<open>FFFF\<close> the octets \<open>1110xxxx 10xxxxxx 10xxxxxx\<close>, and one up to \<open>10FFFF\<close> the
  octets \<open>11110xxx 10xxxxxx 10xxxxxx 10xxxxxx\<close>, where the \<open>x\<close> are the bits of the
  number.
\<close>

definition spec_utf8_char :: "int \<Rightarrow> u8 list" where
  "spec_utf8_char cp =
     (if cp \<le> 0x7F then [octet_of (False # bits 7 cp)]
      else if cp \<le> 0x7FF then
        (let x = bits 11 cp
         in [octet_of ([True, True, False] @ take 5 x),
             octet_of ([True, False] @ drop 5 x)])
      else if cp \<le> 0xFFFF then
        (let x = bits 16 cp
         in [octet_of ([True, True, True, False] @ take 4 x),
             octet_of ([True, False] @ take 6 (drop 4 x)),
             octet_of ([True, False] @ drop 10 x)])
      else
        (let x = bits 21 cp
         in [octet_of ([True, True, True, True, False] @ take 3 x),
             octet_of ([True, False] @ take 6 (drop 3 x)),
             octet_of ([True, False] @ take 6 (drop 9 x)),
             octet_of ([True, False] @ drop 15 x)]))"

text \<open>
  The character numbers of a string (UTF-16, RFC 2781, section 2.2): a code unit
  \<open>110110yyyyyyyyyy\<close> followed by a code unit \<open>110111xxxxxxxxxx\<close> stands for the number
  \<open>10000\<close> (hexadecimal) plus \<open>yyyyyyyyyyxxxxxxxxxx\<close>; any other code unit that begins
  with \<open>11011\<close> is a surrogate without its partner and is read as U+FFFD; every other code
  unit stands for its own number.
\<close>

fun spec_scalar_values :: "u16 list \<Rightarrow> int list" where
  "spec_scalar_values [] = []"
| "spec_scalar_values [c] =
     (if take 5 (bits 16 (uint c)) = [True, True, False, True, True] then [0xFFFD]
      else [uint c])"
| "spec_scalar_values (c # d # rest) =
     (if take 6 (bits 16 (uint c)) = [True, True, False, True, True, False]
         \<and> take 6 (bits 16 (uint d)) = [True, True, False, True, True, True]
      then (0x10000 + bits_value (drop 6 (bits 16 (uint c)) @ drop 6 (bits 16 (uint d))))
             # spec_scalar_values rest
      else if take 5 (bits 16 (uint c)) = [True, True, False, True, True]
      then 0xFFFD # spec_scalar_values (d # rest)
      else uint c # spec_scalar_values (d # rest))"

definition spec_utf8 :: "u16 list \<Rightarrow> u8 list" where
  "spec_utf8 s = concat (map spec_utf8_char (spec_scalar_values s))"

text \<open>
  Base64 (RFC 4648, section 4): three octets are a group of 24 bits, read as four groups of
  six bits, each of which stands for a character of the alphabet; a last group of one or two
  octets is filled with zero bits to a multiple of six and closed with \<open>=\<close> characters.
\<close>

definition spec_base64_digit :: "bool list \<Rightarrow> char" where
  "spec_base64_digit g =
     (let v = bits_value g
      in if v < 26 then char_of (of_char CHR ''A'' + v)
         else if v < 52 then char_of (of_char CHR ''a'' + (v - 26))
         else if v < 62 then char_of (of_char CHR ''0'' + (v - 52))
         else if v = 62 then CHR ''+''
         else CHR ''/'')"

fun spec_base64 :: "u8 list \<Rightarrow> string" where
  "spec_base64 [] = []"
| "spec_base64 [a] =
     map spec_base64_digit (chunks 6 (octet a @ replicate 4 False)) @ ''==''"
| "spec_base64 [a, b] =
     map spec_base64_digit (chunks 6 (octet a @ octet b @ replicate 2 False)) @ ''=''"
| "spec_base64 (a # b # c # rest) =
     map spec_base64_digit (chunks 6 (octet a @ octet b @ octet c)) @ spec_base64 rest"

text \<open>
  SHA-256 (FIPS 180-4). Section 5.1.1: the message, of \<open>l\<close> bits, is followed by the bit 1,
  by \<open>k\<close> zero bits, where \<open>k\<close> is the least number such that \<open>l + 1 + k\<close> is 448 modulo
  512, and by \<open>l\<close> written with 64 bits.
\<close>

definition spec_padding :: "u8 list \<Rightarrow> u8 list" where
  "spec_padding M =
     (let l = 8 * int (length M);
          k = (447 - l) mod 512
      in map octet_of (chunks 8 (True # replicate (nat k) False @ bits 64 l)))"

text \<open>
  Section 5.2.1: the padded message is parsed into blocks of 512 bits, each block into sixteen
  words of 32 bits.
\<close>

definition spec_word :: "u8 list \<Rightarrow> u32" where
  "spec_word bs = word_of_int (bits_value (concat (map octet bs)))"

definition spec_blocks :: "u8 list \<Rightarrow> u32 list list" where
  "spec_blocks padded = map (\<lambda>block. map spec_word (chunks 4 block)) (chunks 64 padded)"

text \<open>
  Section 6.2.2, step 1: the message schedule of 64 words; the first sixteen are the block,
  and word \<open>t\<close> is made from the words \<open>t - 2\<close>, \<open>t - 7\<close>, \<open>t - 15\<close> and
  \<open>t - 16\<close>.
\<close>

fun spec_schedule :: "nat \<Rightarrow> u32 list \<Rightarrow> u32 list" where
  "spec_schedule 0 W = W"
| "spec_schedule (Suc n) W =
     (let t = length W
      in spec_schedule n
           (W @ [sigma1 (W ! (t - 2)) + W ! (t - 7) + sigma0 (W ! (t - 15)) + W ! (t - 16)]))"

text \<open>Steps 2 and 3: the working variables \<open>a\<close> to \<open>h\<close>, as a list, and round \<open>t\<close>.\<close>

definition spec_round :: "u32 list \<Rightarrow> u32 list \<Rightarrow> nat \<Rightarrow> u32 list" where
  "spec_round W v t =
     (let T1 = v ! 7 + Sigma1 (v ! 4) + Ch (v ! 4) (v ! 5) (v ! 6) + K256 ! t + W ! t;
          T2 = Sigma0 (v ! 0) + Maj (v ! 0) (v ! 1) (v ! 2)
      in [T1 + T2, v ! 0, v ! 1, v ! 2, v ! 3 + T1, v ! 4, v ! 5, v ! 6])"

text \<open>Step 4: the hash value after a block.\<close>

definition spec_hash_block :: "u32 list \<Rightarrow> u32 list \<Rightarrow> u32 list" where
  "spec_hash_block H M =
     (let W = spec_schedule 48 M
      in map2 (+) H (foldl (spec_round W) H [0..<64]))"

text \<open>The digest: the eight words of the last hash value, each as four octets.\<close>

definition spec_sha256 :: "u8 list \<Rightarrow> u8 list" where
  "spec_sha256 M =
     concat (map (\<lambda>w. map octet_of (chunks 8 (bits 32 (uint w))))
       (foldl spec_hash_block H256 (spec_blocks (M @ spec_padding M))))"

text \<open>The eight words of a state of \<open>sha_compress\<close>, as a list.\<close>

fun state_words :: "sha_state \<Rightarrow> u32 list" where
  "state_words (a, b, c, d, e, f, g, h) = [a, b, c, d, e, f, g, h]"

text \<open>
  The identifier in the words of the specification: the SHA-256 digest of the UTF-8 encoding
  of the key, in base64, with every \<open>+\<close>, \<open>/\<close> and \<open>=\<close> replaced by \<open>x\<close>, cut to the
  requested length.
\<close>

definition spec_deterministicIdentifier :: "u16 list \<Rightarrow> int \<Rightarrow> string" where
  "spec_deterministicIdentifier key len =
     take (nat len)
       (map (\<lambda>c. if c = CHR ''+'' \<or> c = CHR ''/'' \<or> c = CHR ''='' then CHR ''x'' else c)
          (spec_base64 (spec_sha256 (spec_utf8 key))))"

section \<open>Properties of cryptoRandomObjectId\<close>

lemma length_randomBytes: "length (randomBytes n src) = n"
  by (simp add: randomBytes_def)

lemma length_chars: "length chars = 62"
  by (simp add: chars_def)

lemma distinct_chars: "distinct chars"
  by (simp add: chars_def)

lemma set_chars: "set chars = alphanumeric"
  by (auto simp add: chars_def alphanumeric_def)

lemma cryptoRandomObjectId_loop_eq:
  "n \<le> length bytes \<Longrightarrow>
   cryptoRandomObjectId_loop bytes n str =
     str @ map (\<lambda>b. chars ! (unat b mod 62)) (rev (take n bytes))"
proof (induction n arbitrary: str)
  case 0
  then show ?case by simp
next
  case (Suc n)
  then have "take (Suc n) bytes = take n bytes @ [bytes ! n]"
    by (simp add: take_Suc_conv_app_nth)
  with Suc show ?case by (simp add: length_chars)
qed

lemma chars_nth_alphanumeric: "chars ! (k mod 62) \<in> alphanumeric"
proof -
  have "k mod 62 < length chars" by (simp add: length_chars)
  then have "chars ! (k mod 62) \<in> set chars" by (rule nth_mem)
  then show ?thesis by (simp add: set_chars)
qed

text \<open>
  C7. For every length \<open>L \<ge> 1\<close>, \<open>cryptoRandomObjectId(L)\<close> is a string of exactly \<open>L\<close>
  characters, each one of the 62 alphanumeric characters of \<open>chars\<close>; it is the image of the
  \<open>L\<close> random bytes, taken in reverse order, each byte mapped to the character of \<open>chars\<close> at
  the byte's value modulo 62.
\<close>

theorem cryptoRandomObjectId_spec:
  assumes "1 \<le> L"
  shows "length (cryptoRandomObjectId (Some L) src) = L
       \<and> set (cryptoRandomObjectId (Some L) src) \<subseteq> alphanumeric
       \<and> card alphanumeric = 62
       \<and> length (randomBytes L src) = L
       \<and> cryptoRandomObjectId (Some L) src
           = map (\<lambda>b. chars ! (unat b mod 62)) (rev (randomBytes L src))"
proof -
  have eq: "cryptoRandomObjectId (Some L) src
      = map (\<lambda>b. chars ! (unat b mod 62)) (rev (randomBytes L src))"
    by (simp add: cryptoRandomObjectId_def Let_def cryptoRandomObjectId_loop_eq)
  have len: "length (cryptoRandomObjectId (Some L) src) = L"
    by (simp add: eq length_randomBytes)
  have sub: "set (cryptoRandomObjectId (Some L) src) \<subseteq> alphanumeric"
    by (auto simp add: eq chars_nth_alphanumeric)
  have "card alphanumeric = card (set chars)" by (simp add: set_chars)
  also have "\<dots> = length chars" using distinct_chars by (rule distinct_card)
  finally have card: "card alphanumeric = 62" by (simp add: length_chars)
  from eq len sub card show ?thesis by (simp add: length_randomBytes)
qed

theorem cryptoRandomObjectId_spec_witness:
  "(1::nat) \<le> 3
   \<and> cryptoRandomObjectId (Some 3) (\<lambda>i. [0, 61, 255] ! i) = ''h9a''
   \<and> length (cryptoRandomObjectId (Some 3) (\<lambda>i. [0, 61, 255] ! i)) = 3
   \<and> set (cryptoRandomObjectId (Some 3) (\<lambda>i. [0, 61, 255] ! i)) \<subseteq> alphanumeric"
proof -
  have h: "(1::nat) \<le> 3" by simp
  have v: "cryptoRandomObjectId (Some 3) (\<lambda>i. [0, 61, 255] ! i) = ''h9a''"
    by code_simp
  from cryptoRandomObjectId_spec [OF h, of "\<lambda>i. [0, 61, 255] ! i"]
  have "length (cryptoRandomObjectId (Some 3) (\<lambda>i. [0, 61, 255] ! i)) = 3
      \<and> set (cryptoRandomObjectId (Some 3) (\<lambda>i. [0, 61, 255] ! i)) \<subseteq> alphanumeric"
    by blast
  with h v show ?thesis by blast
qed

section \<open>Properties of sequentializePromises\<close>

lemma loop_fulfilled_item:
  "item_settlement p = Fulfilled v \<Longrightarrow>
   sequentializePromises_loop (p # rest) results tr
     = sequentializePromises_loop rest (results @ [v]) (tr @ item_trace p)"
  by (cases p rule: item_settlement.cases) simp_all

lemma loop_rejected_item:
  "item_settlement p = Rejected e \<Longrightarrow>
   sequentializePromises_loop (p # rest) results tr = (Rejected e, tr @ item_trace p)"
  by (cases p rule: item_settlement.cases) simp_all

lemma loop_forever_item:
  "item_settlement p = Forever \<Longrightarrow>
   sequentializePromises_loop (p # rest) results tr = (Forever, tr @ item_trace p)"
  by (cases p rule: item_settlement.cases) simp_all

lemma loop_fulfilled_prefix:
  "map item_settlement ps = map Fulfilled vs \<Longrightarrow>
   sequentializePromises_loop (ps @ rest) results tr
     = sequentializePromises_loop rest (results @ vs) (tr @ concat (map item_trace ps))"
proof (induction ps arbitrary: vs results tr)
  case Nil
  then show ?case by simp
next
  case (Cons p ps)
  then obtain v vs' where vs: "vs = v # vs'" and p: "item_settlement p = Fulfilled v"
    and ps: "map item_settlement ps = map Fulfilled vs'"
    by (cases vs) auto
  show ?case
    using Cons.IH [OF ps] by (simp add: vs loop_fulfilled_item [OF p])
qed

lemma invoked_factories_append:
  "invoked_factories (xs @ ys) = invoked_factories xs @ invoked_factories ys"
  by (induction xs rule: invoked_factories.induct) simp_all

lemma invoked_factories_trace:
  "invoked_factories (concat (map item_trace ps)) = factories_of ps"
proof (induction ps)
  case Nil
  then show ?case by simp
next
  case (Cons p ps)
  then show ?case
    by (cases p rule: item_trace.cases) (simp_all add: invoked_factories_append)
qed

text \<open>
  C3. \<open>sequentializePromises\<close> returns the results in input order; for the empty input it
  returns the empty array without any \<open>await\<close>; when every item before position \<open>N\<close>
  fulfils and item \<open>N\<close> rejects (or its factory throws), the run rejects with exactly that
  error and carries no earlier result, the trace ends with item \<open>N\<close>, so the factories
  invoked are those of the items up to \<open>N\<close> and none after it, and each factory is invoked only
  after the \<open>await\<close> of the item before it has been observed.
\<close>

theorem sequentializePromises_spec:
  "sequentializePromises [] = (Fulfilled [], [])
   \<and> (map item_settlement ps = map Fulfilled vs \<longrightarrow>
        sequentializePromises ps = (Fulfilled vs, concat (map item_trace ps)))
   \<and> (map item_settlement pre = map Fulfilled ws \<and> item_settlement p = Rejected e \<longrightarrow>
        sequentializePromises (pre @ p # post)
          = (Rejected e, concat (map item_trace (pre @ [p])))
        \<and> invoked_factories (snd (sequentializePromises (pre @ p # post)))
          = factories_of (pre @ [p]))"
proof (intro conjI impI)
  show "sequentializePromises [] = (Fulfilled [], [])"
    by (simp add: sequentializePromises_def)
next
  assume a: "map item_settlement ps = map Fulfilled vs"
  show "sequentializePromises ps = (Fulfilled vs, concat (map item_trace ps))"
  proof (cases "ps = []")
    case True
    with a show ?thesis by (simp add: sequentializePromises_def)
  next
    case False
    from loop_fulfilled_prefix [OF a, of "[]" "[]" "[]"] False
    show ?thesis by (simp add: sequentializePromises_def)
  qed
next
  assume a: "map item_settlement pre = map Fulfilled ws \<and> item_settlement p = Rejected e"
  then have r: "sequentializePromises (pre @ p # post)
      = (Rejected e, concat (map item_trace (pre @ [p])))"
    using loop_fulfilled_prefix [of pre ws "p # post" "[]" "[]"]
    by (simp add: sequentializePromises_def loop_rejected_item)
  then show "sequentializePromises (pre @ p # post)
      = (Rejected e, concat (map item_trace (pre @ [p])))" .
  show "invoked_factories (snd (sequentializePromises (pre @ p # post)))
      = factories_of (pre @ [p])"
    by (simp only: r snd_conv invoked_factories_trace)
qed

theorem sequentializePromises_spec_witness:
  "sequentializePromises [Promise (Fulfilled (JNum 1)), Factory 7 (Inr (Fulfilled (JNum 2)))]
     = (Fulfilled [JNum 1, JNum 2],
        [Awaited (Fulfilled (JNum 1)), Invoked 7, Awaited (Fulfilled (JNum 2))])
   \<and> sequentializePromises
        [Factory 1 (Inr (Fulfilled (JNum 1))), Factory 2 (Inr (Rejected (JError ''boom''))),
         Factory 3 (Inr (Fulfilled (JNum 3)))]
     = (Rejected (JError ''boom''),
        [Invoked 1, Awaited (Fulfilled (JNum 1)), Invoked 2, Awaited (Rejected (JError ''boom''))])
   \<and> invoked_factories (snd (sequentializePromises
        [Factory 1 (Inr (Fulfilled (JNum 1))), Factory 2 (Inr (Rejected (JError ''boom''))),
         Factory 3 (Inr (Fulfilled (JNum 3)))])) = [1, 2]"
proof -
  let ?ps = "[Promise (Fulfilled (JNum 1)), Factory 7 (Inr (Fulfilled (JNum 2)))]"
  let ?pre = "[Factory 1 (Inr (Fulfilled (JNum 1)))]"
  let ?p = "Factory 2 (Inr (Rejected (JError ''boom'')))"
  let ?post = "[Factory 3 (Inr (Fulfilled (JNum 3)))]"
  have h1: "map item_settlement ?ps = map Fulfilled [JNum 1, JNum 2]" by simp
  have h2: "map item_settlement ?pre = map Fulfilled [JNum 1]
      \<and> item_settlement ?p = Rejected (JError ''boom'')" by simp
  note spec = sequentializePromises_spec
    [of ?ps "[JNum 1, JNum 2]" ?pre "[JNum 1]" ?p "JError ''boom''" ?post]
  from spec h1 have c1: "sequentializePromises ?ps
      = (Fulfilled [JNum 1, JNum 2], concat (map item_trace ?ps))" by blast
  from spec h2 have c2: "sequentializePromises (?pre @ ?p # ?post)
      = (Rejected (JError ''boom''), concat (map item_trace (?pre @ [?p])))" by blast
  from spec h2 have c3: "invoked_factories (snd (sequentializePromises (?pre @ ?p # ?post)))
      = factories_of (?pre @ [?p])" by blast
  from c1 c2 c3 show ?thesis by simp
qed

section \<open>Properties of timeoutPromise\<close>

lemma callback_fulfilled: "hasFulfilled s \<Longrightarrow> callback err result s = s"
  by (simp add: callback_def)

lemma callback_first:
  "\<not> hasFulfilled s \<Longrightarrow>
   callback err result s =
     s\<lparr>tp_timers := clearTimeout (timeout s) (tp_timers s), hasFulfilled := True,
       tp_settled := tp_settled s @ [if truthy err then Reject err else Resolve result]\<rparr>"
  by (simp add: callback_def Let_def)

lemma tp_step_fulfilled:
  "hasFulfilled s \<Longrightarrow>
   hasFulfilled (tp_step msg s ev) \<and> tp_settled (tp_step msg s ev) = tp_settled s
   \<and> timeout (tp_step msg s ev) = timeout s
   \<and> (timer_pending (tp_timers s) tid = None
        \<longrightarrow> timer_pending (tp_timers (tp_step msg s ev)) tid = None)"
  by (cases ev) (simp_all add: callback_fulfilled clearTimeout_def split: option.splits)

lemma tp_run_fulfilled:
  "hasFulfilled s \<Longrightarrow> timer_pending (tp_timers s) tid = None \<Longrightarrow>
   hasFulfilled (tp_run msg s evs) \<and> tp_settled (tp_run msg s evs) = tp_settled s
   \<and> timer_pending (tp_timers (tp_run msg s evs)) tid = None"
proof (induction evs arbitrary: s)
  case Nil
  then show ?case by (simp add: tp_run_def)
next
  case (Cons ev evs)
  from tp_step_fulfilled [OF Cons.prems(1), of msg ev tid] Cons.prems(2)
  have a: "hasFulfilled (tp_step msg s ev)"
    and b: "tp_settled (tp_step msg s ev) = tp_settled s"
    and c: "timer_pending (tp_timers (tp_step msg s ev)) tid = None"
    by simp_all
  from Cons.IH [OF a c] b show ?case by (simp add: tp_run_def)
qed

lemma timeoutPromise_initial:
  "hasFulfilled (timeoutPromise ms rt) = False"
  "timeout (timeoutPromise ms rt) = Some (timer_next rt)"
  "tp_settled (timeoutPromise ms rt) = []"
  "timer_pending (tp_timers (timeoutPromise ms rt)) (timer_next rt) = Some ms"
  by (simp_all add: timeoutPromise_def setTimeout_def)

lemma tp_first_step:
  "hasFulfilled (tp_step msg (timeoutPromise ms rt) ev)
   \<and> timer_pending (tp_timers (tp_step msg (timeoutPromise ms rt) ev)) (timer_next rt) = None
   \<and> tp_settled (tp_step msg (timeoutPromise ms rt) ev) =
       (case ev of
          OperationFulfilled v \<Rightarrow> [Resolve v]
        | OperationRejected e \<Rightarrow> [if truthy e then Reject e else Resolve JUndefined]
        | TimerFired \<Rightarrow> [Reject (JError (errorMessage msg))])"
  by (cases ev)
     (simp_all add: timeoutPromise_initial callback_first clearTimeout_def)

lemma tp_run_first:
  "tp_settled (tp_run msg (timeoutPromise ms rt) (ev # evs))
     = tp_settled (tp_step msg (timeoutPromise ms rt) ev)
   \<and> timer_pending (tp_timers (tp_run msg (timeoutPromise ms rt) (ev # evs))) (timer_next rt)
     = None"
proof -
  from tp_first_step [of msg ms rt ev]
  have a: "hasFulfilled (tp_step msg (timeoutPromise ms rt) ev)"
    and c: "timer_pending (tp_timers (tp_step msg (timeoutPromise ms rt) ev)) (timer_next rt) = None"
    by simp_all
  have "tp_run msg (timeoutPromise ms rt) (ev # evs)
      = tp_run msg (tp_step msg (timeoutPromise ms rt) ev) evs"
    by (simp add: tp_run_def)
  with tp_run_fulfilled [OF a c, of msg evs] show ?thesis by simp
qed

text \<open>
  C1, as the code has it. After \<open>timeoutPromise\<close> has set its timer, whatever the environment does
  and in whatever order (the wrapped promise fulfils or rejects, the timer fires, also several
  times or one after the other), \<open>resolve\<close> and \<open>reject\<close> of the guarded promise are
  called at most once in total, and exactly once as soon as one event has happened: the calls
  after the first event and after any later ones are the same. The timer, pending when
  \<open>timeoutPromise\<close> returns, is no longer pending after the first event, whichever it is, nor
  ever after. If the wrapped promise fulfils first, the one call is \<open>resolve\<close> with its
  result. If it rejects first with a truthy reason, the one call is \<open>reject\<close> with that
  reason. If the timer fires first, the one call is \<open>reject\<close> with an \<open>Error\<close> carrying
  the given message, \<open>'Promise has timed-out'\<close> when none was given. What the one call is
  when the wrapped promise rejects first with a falsy reason is the subject of C9.
\<close>

theorem timeoutPromise_settles_once:
  "length (tp_settled (tp_run msg (timeoutPromise ms rt) evs)) \<le> 1
   \<and> length (tp_settled (tp_run msg (timeoutPromise ms rt) (ev # evs))) = 1
   \<and> tp_settled (tp_run msg (timeoutPromise ms rt) (ev # evs))
       = tp_settled (tp_run msg (timeoutPromise ms rt) [ev])
   \<and> tp_settled (tp_run msg (timeoutPromise ms rt) (OperationFulfilled v # evs)) = [Resolve v]
   \<and> (truthy e \<longrightarrow>
        tp_settled (tp_run msg (timeoutPromise ms rt) (OperationRejected e # evs)) = [Reject e])
   \<and> timer_pending (tp_timers (timeoutPromise ms rt)) (timer_next rt) = Some ms
   \<and> timer_pending (tp_timers (tp_run msg (timeoutPromise ms rt) (ev # evs))) (timer_next rt)
       = None
   \<and> tp_settled (tp_run msg (timeoutPromise ms rt) (TimerFired # evs))
       = [Reject (JError (errorMessage msg))]
   \<and> errorMessage None = ''Promise has timed-out''
   \<and> errorMessage (Some m) = m"
proof -
  have first: "\<And>ev evs. tp_settled (tp_run msg (timeoutPromise ms rt) (ev # evs))
      = tp_settled (tp_step msg (timeoutPromise ms rt) ev)"
    using tp_run_first by blast
  have one: "\<And>ev. length (tp_settled (tp_step msg (timeoutPromise ms rt) ev)) = 1"
    using tp_first_step [of msg ms rt] by (simp split: tp_event.splits)
  have c1: "length (tp_settled (tp_run msg (timeoutPromise ms rt) evs)) \<le> 1"
  proof (cases evs)
    case Nil
    then show ?thesis by (simp add: tp_run_def timeoutPromise_initial)
  next
    case (Cons a as)
    then show ?thesis by (simp add: first one)
  qed
  have c2: "length (tp_settled (tp_run msg (timeoutPromise ms rt) (ev # evs))) = 1"
    by (simp add: first one)
  have c3: "tp_settled (tp_run msg (timeoutPromise ms rt) (ev # evs))
       = tp_settled (tp_run msg (timeoutPromise ms rt) [ev])"
    by (simp add: first)
  have c4: "tp_settled (tp_run msg (timeoutPromise ms rt) (OperationFulfilled v # evs)) = [Resolve v]"
    using tp_first_step [of msg ms rt "OperationFulfilled v"] by (simp add: first)
  have r: "tp_settled (tp_run msg (timeoutPromise ms rt) (OperationRejected e # evs))
      = [if truthy e then Reject e else Resolve JUndefined]"
    using tp_first_step [of msg ms rt "OperationRejected e"] by (simp add: first)
  have c4a: "truthy e \<longrightarrow>
      tp_settled (tp_run msg (timeoutPromise ms rt) (OperationRejected e # evs)) = [Reject e]"
    by (simp add: r)
  have c5: "timer_pending (tp_timers (timeoutPromise ms rt)) (timer_next rt) = Some ms"
    by (simp add: timeoutPromise_initial)
  have c6: "timer_pending (tp_timers (tp_run msg (timeoutPromise ms rt) (ev # evs))) (timer_next rt)
       = None"
    using tp_run_first by blast
  have c7: "tp_settled (tp_run msg (timeoutPromise ms rt) (TimerFired # evs))
       = [Reject (JError (errorMessage msg))]"
    using tp_first_step [of msg ms rt TimerFired] by (simp add: first)
  have c8: "errorMessage None = ''Promise has timed-out'' \<and> errorMessage (Some m) = m"
    by (simp add: errorMessage_def)
  from c1 c2 c3 c4 c4a c5 c6 c7 c8 show ?thesis by blast
qed

theorem timeoutPromise_settles_once_witness:
  "truthy (JStr ''busy'')
   \<and> tp_settled (tp_run (Some ''too slow'')
        (timeoutPromise 10 \<lparr>timer_next = 3, timer_pending = Map.empty\<rparr>)
        [OperationRejected (JStr ''busy''), TimerFired, OperationFulfilled (JNum 1)])
       = [Reject (JStr ''busy'')]
   \<and> tp_settled (tp_run (Some ''too slow'')
        (timeoutPromise 10 \<lparr>timer_next = 3, timer_pending = Map.empty\<rparr>)
        [TimerFired, OperationFulfilled (JNum 1)]) = [Reject (JError ''too slow'')]
   \<and> tp_settled (tp_run None
        (timeoutPromise 10 \<lparr>timer_next = 3, timer_pending = Map.empty\<rparr>)
        [OperationFulfilled (JNum 1), TimerFired]) = [Resolve (JNum 1)]
   \<and> timer_pending (tp_timers (tp_run None
        (timeoutPromise 10 \<lparr>timer_next = 3, timer_pending = Map.empty\<rparr>)
        [OperationFulfilled (JNum 1), TimerFired])) 3 = None"
proof -
  let ?rt = "\<lparr>timer_next = 3, timer_pending = Map.empty\<rparr>"
  have h1: "truthy (JStr ''busy'')" by simp
  from timeoutPromise_settles_once
    [where msg = "Some ''too slow''" and ms = 10 and rt = ?rt
       and evs = "[TimerFired, OperationFulfilled (JNum 1)]" and ev = TimerFired
       and v = "JNum 1" and e = "JStr ''busy''" and m = "''too slow''"] h1
  have c1: "tp_settled (tp_run (Some ''too slow'') (timeoutPromise 10 ?rt)
      [OperationRejected (JStr ''busy''), TimerFired, OperationFulfilled (JNum 1)])
      = [Reject (JStr ''busy'')]"
    by blast
  from timeoutPromise_settles_once
    [where msg = "Some ''too slow''" and ms = 10 and rt = ?rt
       and evs = "[OperationFulfilled (JNum 1)]" and ev = TimerFired
       and v = "JNum 1" and e = "JStr ''busy''" and m = "''too slow''"]
  have "tp_settled (tp_run (Some ''too slow'') (timeoutPromise 10 ?rt)
      [TimerFired, OperationFulfilled (JNum 1)])
      = [Reject (JError (errorMessage (Some ''too slow'')))]"
    by blast
  then have c3: "tp_settled (tp_run (Some ''too slow'') (timeoutPromise 10 ?rt)
      [TimerFired, OperationFulfilled (JNum 1)]) = [Reject (JError ''too slow'')]"
    by (simp add: errorMessage_def)
  note fulfilled = timeoutPromise_settles_once
    [where msg = None and ms = 10 and rt = ?rt
       and evs = "[TimerFired]" and ev = "OperationFulfilled (JNum 1)"
       and v = "JNum 1" and e = "JStr ''busy''" and m = "''too slow''"]
  from fulfilled
  have c4: "tp_settled (tp_run None (timeoutPromise 10 ?rt)
      [OperationFulfilled (JNum 1), TimerFired]) = [Resolve (JNum 1)]"
    by blast
  from fulfilled
  have "timer_pending (tp_timers (tp_run None (timeoutPromise 10 ?rt)
      [OperationFulfilled (JNum 1), TimerFired])) (timer_next ?rt) = None"
    by blast
  then have c5: "timer_pending (tp_timers (tp_run None (timeoutPromise 10 ?rt)
      [OperationFulfilled (JNum 1), TimerFired])) 3 = None"
    by simp
  from h1 c1 c3 c4 c5 show ?thesis by blast
qed

text \<open>
  The claim as written fails when the wrapped promise rejects first with \<open>null\<close>: the one
  call made on the guarded promise is then \<open>resolve(undefined)\<close>, which passes on neither a
  result of the operation nor its reason.
\<close>

theorem timeoutPromise_rejection_first_counterexample:
  "tp_settled (tp_run None (timeoutPromise 1000 \<lparr>timer_next = 0, timer_pending = Map.empty\<rparr>)
     [OperationRejected JNull]) = [Resolve JUndefined]
   \<and> tp_settled (tp_run None (timeoutPromise 1000 \<lparr>timer_next = 0, timer_pending = Map.empty\<rparr>)
     [OperationRejected JNull]) \<noteq> [Reject JNull]"
  by (simp add: tp_run_def timeoutPromise_def setTimeout_def callback_def clearTimeout_def)

text \<open>
  C9. If the wrapped promise rejects before the timer fires and the reason is falsy, the one
  call made on the guarded promise is \<open>resolve(undefined)\<close>: \<open>callback\<close> takes its first
  argument for an error only when it is truthy. A truthy reason is passed to \<open>reject\<close>.
\<close>

theorem timeoutPromise_falsy_rejection:
  "(\<not> truthy e \<longrightarrow>
      tp_settled (tp_run msg (timeoutPromise ms rt) (OperationRejected e # evs))
        = [Resolve JUndefined])
   \<and> (truthy e \<longrightarrow>
      tp_settled (tp_run msg (timeoutPromise ms rt) (OperationRejected e # evs)) = [Reject e])"
proof -
  have "tp_settled (tp_run msg (timeoutPromise ms rt) (OperationRejected e # evs))
      = [if truthy e then Reject e else Resolve JUndefined]"
    using tp_run_first [of msg ms rt "OperationRejected e" evs]
      tp_first_step [of msg ms rt "OperationRejected e"]
    by simp
  then show ?thesis by simp
qed

theorem timeoutPromise_falsy_rejection_witness:
  "\<not> truthy JNull
   \<and> tp_settled (tp_run None (timeoutPromise 1000 \<lparr>timer_next = 0, timer_pending = Map.empty\<rparr>)
        [OperationRejected JNull, TimerFired]) = [Resolve JUndefined]
   \<and> truthy (JError ''failed'')
   \<and> tp_settled (tp_run None (timeoutPromise 1000 \<lparr>timer_next = 0, timer_pending = Map.empty\<rparr>)
        [OperationRejected (JError ''failed''), TimerFired]) = [Reject (JError ''failed'')]"
proof -
  let ?rt = "\<lparr>timer_next = 0, timer_pending = Map.empty\<rparr>"
  have h1: "\<not> truthy JNull" by simp
  have h2: "truthy (JError ''failed'')" by simp
  from timeoutPromise_falsy_rejection [of JNull None 1000 ?rt "[TimerFired]"] h1
  have c1: "tp_settled (tp_run None (timeoutPromise 1000 ?rt) [OperationRejected JNull, TimerFired])
      = [Resolve JUndefined]" by blast
  from timeoutPromise_falsy_rejection [of "JError ''failed''" None 1000 ?rt "[TimerFired]"] h2
  have c2: "tp_settled (tp_run None (timeoutPromise 1000 ?rt)
      [OperationRejected (JError ''failed''), TimerFired]) = [Reject (JError ''failed'')]" by blast
  from h1 h2 c1 c2 show ?thesis by blast
qed

section \<open>Properties of betterSetInterval and betterClearInterval\<close>

lemma betterClearInterval_own_handle:
  "betterSetInterval delay rt lg = (h, s0) \<Longrightarrow>
   betterClearInterval h s = Normal (clearInterval_method s)"
  by (auto simp add: betterSetInterval_def Let_def)

lemma clearInterval_method_no_timer:
  "no_timer_pending s \<Longrightarrow> clearInterval_method s = s\<lparr>isRunning := False\<rparr>"
  by (auto simp add: no_timer_pending_def clearInterval_method_def clearTimeout_def Let_def
      fun_upd_idem split: option.splits)

lemma cancelled_clearInterval_method: "cancelled (clearInterval_method s)"
  by (simp add: cancelled_def no_timer_pending_def clearInterval_method_def clearTimeout_def
      Let_def split: option.splits)

lemma cancelled_callback: "cancelled s \<Longrightarrow> bsi_callback delay s = s"
  by (simp add: cancelled_def bsi_callback_def)

lemma cancelled_cancel: "cancelled s \<Longrightarrow> clearInterval_method s = s"
  by (simp add: cancelled_def clearInterval_method_no_timer)

lemma cancelled_step:
  assumes "cancelled s" and "\<And>s. betterClearInterval h s = Normal (clearInterval_method s)"
  shows "\<exists>s'. bsi_step delay h (Normal s) ev = Normal s' \<and> cancelled s'
      \<and> dom (timer_pending (bsi_timers s')) \<subseteq> dom (timer_pending (bsi_timers s))"
proof (cases ev)
  case Continuation
  with assms show ?thesis by (simp add: cancelled_callback)
next
  case (TimerFires tid)
  with assms show ?thesis
    by (auto simp add: cancelled_def no_timer_pending_def funcWrapper_def clearTimeout_def
        split: option.splits)
next
  case Cancel
  with assms show ?thesis
    by (simp add: cancelled_cancel)
qed

lemma cancelled_run:
  assumes "\<And>s. betterClearInterval h s = Normal (clearInterval_method s)"
  shows "cancelled s \<Longrightarrow>
    \<exists>s'. foldl (bsi_step delay h) (Normal s) evs = Normal s' \<and> cancelled s'
      \<and> dom (timer_pending (bsi_timers s')) \<subseteq> dom (timer_pending (bsi_timers s))"
proof (induction evs arbitrary: s)
  case Nil
  then show ?case by simp
next
  case (Cons ev evs)
  from cancelled_step [OF Cons.prems assms, of delay ev]
  obtain s1 where s1: "bsi_step delay h (Normal s) ev = Normal s1" "cancelled s1"
    "dom (timer_pending (bsi_timers s1)) \<subseteq> dom (timer_pending (bsi_timers s))"
    by blast
  from Cons.IH [OF s1(2)] obtain s' where
    "foldl (bsi_step delay h) (Normal s1) evs = Normal s'" "cancelled s'"
    "dom (timer_pending (bsi_timers s')) \<subseteq> dom (timer_pending (bsi_timers s1))"
    by blast
  with s1 show ?case by auto
qed

lemma bsi_step_normal:
  assumes "\<And>s. betterClearInterval h s = Normal (clearInterval_method s)"
  shows "\<exists>s'. bsi_step delay h (Normal s) ev = Normal s'"
  by (cases ev) (simp_all add: assms split: option.splits)

lemma bsi_run_normal:
  assumes "\<And>s. betterClearInterval h s = Normal (clearInterval_method s)"
  shows "\<exists>s'. foldl (bsi_step delay h) (Normal s) evs = Normal s'"
proof (induction evs arbitrary: s)
  case Nil
  then show ?case by simp
next
  case (Cons ev evs)
  from bsi_step_normal [OF assms, of delay s ev]
  obtain s1 where "bsi_step delay h (Normal s) ev = Normal s1" by blast
  with Cons.IH [of s1] show ?case by simp
qed

text \<open>
  C2. Take the handle and the state that \<open>betterSetInterval\<close> returns, let anything happen
  (continuations, timers firing, cancellations), and apply \<open>betterClearInterval\<close> to the handle.
  The call returns without throwing, the interval is no longer running, and from then on,
  whatever else happens: a call of the continuation changes nothing, so it sets no timer for
  \<open>funcWrapper\<close>; no timer is ever added to the pending ones; and a further
  \<open>betterClearInterval\<close> returns without throwing and leaves the state, its timers included,
  exactly as it was. In any state with no timer of the interval pending, the cancellation
  returns without throwing and changes nothing but \<open>isRunning\<close>.
\<close>

theorem betterClearInterval_stops_scheduling:
  assumes "betterSetInterval delay rt lg = (h, s0)"
  shows "\<exists>s1. bsi_run delay h s0 (before @ [Cancel]) = Normal s1 \<and> \<not> isRunning s1
      \<and> (\<exists>s2. bsi_run delay h s0 (before @ [Cancel] @ after) = Normal s2
            \<and> \<not> isRunning s2
            \<and> bsi_callback delay s2 = s2
            \<and> betterClearInterval h s2 = Normal s2
            \<and> dom (timer_pending (bsi_timers s2)) \<subseteq> dom (timer_pending (bsi_timers s1)))
      \<and> (\<forall>s. no_timer_pending s \<longrightarrow> betterClearInterval h s = Normal (s\<lparr>isRunning := False\<rparr>))"
proof -
  have h: "\<And>s. betterClearInterval h s = Normal (clearInterval_method s)"
    using assms by (rule betterClearInterval_own_handle)
  from bsi_run_normal [OF h, of delay s0 before]
  obtain s where s: "foldl (bsi_step delay h) (Normal s0) before = Normal s" by blast
  let ?s1 = "clearInterval_method s"
  have r1: "bsi_run delay h s0 (before @ [Cancel]) = Normal ?s1"
    by (simp add: bsi_run_def s h)
  have c1: "cancelled ?s1" by (rule cancelled_clearInterval_method)
  from cancelled_run [OF h c1, of delay after]
  obtain s2 where s2: "foldl (bsi_step delay h) (Normal ?s1) after = Normal s2" "cancelled s2"
    "dom (timer_pending (bsi_timers s2)) \<subseteq> dom (timer_pending (bsi_timers ?s1))"
    by blast
  have r2: "bsi_run delay h s0 (before @ [Cancel] @ after) = Normal s2"
    using s2(1) by (simp add: bsi_run_def s h)
  have again: "betterClearInterval h s2 = Normal s2"
    using s2(2) by (simp add: h cancelled_cancel)
  have idle: "\<forall>s. no_timer_pending s \<longrightarrow> betterClearInterval h s = Normal (s\<lparr>isRunning := False\<rparr>)"
    by (simp add: h clearInterval_method_no_timer)
  from c1 s2(2) have "\<not> isRunning ?s1" "\<not> isRunning s2" by (simp_all add: cancelled_def)
  with r1 r2 again idle s2(3) cancelled_callback [OF s2(2), of delay]
  show ?thesis by blast
qed

theorem betterClearInterval_stops_scheduling_witness:
  "betterSetInterval 50 \<lparr>timer_next = 0, timer_pending = Map.empty\<rparr> []
     = (Handle (Method (\<lambda>s. Normal (clearInterval_method s))),
        \<lparr>isRunning = True, timeoutId = None,
         bsi_timers = \<lparr>timer_next = 0, timer_pending = Map.empty\<rparr>,
         executions = 1, log_exceptions = []\<rparr>)
   \<and> bsi_run 50 (Handle (Method (\<lambda>s. Normal (clearInterval_method s))))
        \<lparr>isRunning = True, timeoutId = None,
         bsi_timers = \<lparr>timer_next = 0, timer_pending = Map.empty\<rparr>,
         executions = 1, log_exceptions = []\<rparr>
        ([Continuation] @ [Cancel] @ [Continuation, Cancel, TimerFires 0])
     = Normal \<lparr>isRunning = False, timeoutId = Some 0,
         bsi_timers = \<lparr>timer_next = 1, timer_pending = Map.empty\<rparr>,
         executions = 1, log_exceptions = []\<rparr>
   \<and> (\<exists>s1. bsi_run 50 (Handle (Method (\<lambda>s. Normal (clearInterval_method s))))
        \<lparr>isRunning = True, timeoutId = None,
         bsi_timers = \<lparr>timer_next = 0, timer_pending = Map.empty\<rparr>,
         executions = 1, log_exceptions = []\<rparr>
        ([Continuation] @ [Cancel]) = Normal s1 \<and> \<not> isRunning s1)"
proof -
  let ?rt = "\<lparr>timer_next = 0, timer_pending = Map.empty\<rparr>"
  let ?h = "Handle (Method (\<lambda>s. Normal (clearInterval_method s)))"
  let ?s0 = "\<lparr>isRunning = True, timeoutId = None, bsi_timers = ?rt,
         executions = 1, log_exceptions = []\<rparr>"
  have a: "betterSetInterval 50 ?rt [] = (?h, ?s0)"
    by (simp add: betterSetInterval_def funcWrapper_def)
  have b: "bsi_run 50 ?h ?s0 ([Continuation] @ [Cancel] @ [Continuation, Cancel, TimerFires 0])
     = Normal \<lparr>isRunning = False, timeoutId = Some 0,
         bsi_timers = \<lparr>timer_next = 1, timer_pending = Map.empty\<rparr>,
         executions = 1, log_exceptions = []\<rparr>"
    by (simp add: bsi_run_def bsi_callback_def setTimeout_def clearInterval_method_def
        clearTimeout_def)
  from betterClearInterval_stops_scheduling [OF a, of "[Continuation]"]
  have c: "\<exists>s1. bsi_run 50 ?h ?s0 ([Continuation] @ [Cancel]) = Normal s1 \<and> \<not> isRunning s1"
    by blast
  from a b c show ?thesis by blast
qed

section \<open>Properties of promisifyServerListen\<close>

lemma call_server_normal:
  "method (server_state w) = Normal s' \<Longrightarrow>
   call_server method c w = Normal (w\<lparr>server_state := s', psl_calls := psl_calls w @ [c]\<rparr>)"
  by (simp add: call_server_def)

lemma call_server_thrown:
  "method (server_state w) = Thrown e s' \<Longrightarrow>
   call_server method c w = Thrown e (w\<lparr>server_state := s', psl_calls := psl_calls w @ [c]\<rparr>)"
  by (simp add: call_server_def)











subsection \<open>The EventEmitter\<close>


















lemma betterClearInterval_normal: "\<exists>s'. betterClearInterval h s = Normal s'"
proof (cases h)
  case NoHandle
  then show ?thesis by simp
next
  case (Handle m)
  then show ?thesis by (cases "call_member m s") simp_all
qed

lemma removeListeners_thrown:
  "server_removeListener srv ''error'' OnError (server_state w) = Thrown x t \<Longrightarrow>
   removeListeners srv w
     = Thrown x (w\<lparr>server_state := t, psl_calls := psl_calls w @ [RemoveListener ''error'' OnError]\<rparr>)"
  by (simp add: removeListeners_def call_server_def)

lemma removeListeners_thrown_second:
  "server_removeListener srv ''error'' OnError (server_state w) = Normal t \<Longrightarrow>
   server_removeListener srv ''listening'' OnListening t = Thrown x t' \<Longrightarrow>
   removeListeners srv w
     = Thrown x (w\<lparr>server_state := t',
                   psl_calls := psl_calls w @ [RemoveListener ''error'' OnError,
                                               RemoveListener ''listening'' OnListening]\<rparr>)"
  by (simp add: removeListeners_def call_server_def)

lemma call_server_keeps:
  "psl_settled (outcome_state (call_server method c w)) = psl_settled w
   \<and> psl_log (outcome_state (call_server method c w)) = psl_log w"
  by (cases "method (server_state w)") (simp_all add: call_server_def)

lemma removeListeners_keeps:
  "psl_settled (outcome_state (removeListeners srv w)) = psl_settled w
   \<and> psl_log (outcome_state (removeListeners srv w)) = psl_log w"
proof (cases "call_server (server_removeListener srv ''error'' OnError)
    (RemoveListener ''error'' OnError) w")
  case (Normal w1)
  with call_server_keeps [of "server_removeListener srv ''error'' OnError"
      "RemoveListener ''error'' OnError" w]
  have a: "psl_settled w1 = psl_settled w \<and> psl_log w1 = psl_log w" by simp
  from Normal have "removeListeners srv w
      = call_server (server_removeListener srv ''listening'' OnListening)
          (RemoveListener ''listening'' OnListening) w1"
    by (simp add: removeListeners_def)
  with a call_server_keeps [of "server_removeListener srv ''listening'' OnListening"
      "RemoveListener ''listening'' OnListening" w1]
  show ?thesis by simp
next
  case (Thrown x w1)
  with call_server_keeps [of "server_removeListener srv ''error'' OnError"
      "RemoveListener ''error'' OnError" w]
  have a: "psl_settled w1 = psl_settled w \<and> psl_log w1 = psl_log w" by simp
  from Thrown have "removeListeners srv w = Thrown x w1" by (simp add: removeListeners_def)
  with a show ?thesis by simp
qed

lemma invoke_thrown_keeps:
  "is_thrown (invoke srv arg lsn w) \<Longrightarrow>
   psl_settled (outcome_state (invoke srv arg lsn w)) = psl_settled w
   \<and> psl_log (outcome_state (invoke srv arg lsn w)) = psl_log w"
proof (cases lsn)
  case OnError
  assume t: "is_thrown (invoke srv arg lsn w)"
  show ?thesis
  proof (cases "removeListeners srv w")
    case (Normal w1)
    with OnError t show ?thesis by (simp add: onError_def)
  next
    case (Thrown x w1)
    with OnError removeListeners_keeps [of srv w] show ?thesis by (simp add: onError_def)
  qed
next
  case OnListening
  assume t: "is_thrown (invoke srv arg lsn w)"
  show ?thesis
  proof (cases "removeListeners srv w")
    case (Normal w1)
    with OnListening t show ?thesis by (simp add: onListening_def)
  next
    case (Thrown x w1)
    with OnListening removeListeners_keeps [of srv w] show ?thesis by (simp add: onListening_def)
  qed
next
  case (Foreign n)
  then show ?thesis by simp
qed

text \<open>
  C5, as the code has it. \<open>betterClearInterval\<close> never throws, whatever its argument: an
  exception of \<open>_betterClearInterval\<close> is caught and written to the log with
  \<open>log.exception\<close>. The listeners of \<open>promisifyServerListen\<close> have no such guard. When
  \<open>removeListener('error', onError)\<close> throws, \<open>onError\<close> and \<open>onListening\<close> throw the
  same exception to the server that invoked them, and \<open>removeListener\<close> is not called for
  \<open>'listening'\<close>. When that first call returns and
  \<open>removeListener('listening', onListening)\<close> throws, they throw that exception. Whenever an
  invocation of a listener throws, it has called neither \<open>reject\<close> nor \<open>resolve\<close> and
  has written nothing to the log.
\<close>

theorem cancellation_errors_caught_cleanup_errors_thrown:
  "(\<exists>s'. betterClearInterval h s = Normal s')
   \<and> (member_truthy m \<and> call_member m s = Thrown e s' \<longrightarrow>
        betterClearInterval (Handle m) s
          = Normal (log_exception e ''_betterClearInterval() threw an exception!?'' s'))
   \<and> (server_removeListener srv ''error'' OnError (server_state w) = Thrown x t \<longrightarrow>
        onError srv err w
          = Thrown x (w\<lparr>server_state := t,
                        psl_calls := psl_calls w @ [RemoveListener ''error'' OnError]\<rparr>)
        \<and> onListening srv w
          = Thrown x (w\<lparr>server_state := t,
                        psl_calls := psl_calls w @ [RemoveListener ''error'' OnError]\<rparr>))
   \<and> (server_removeListener srv ''error'' OnError (server_state w) = Normal t
      \<and> server_removeListener srv ''listening'' OnListening t = Thrown x t' \<longrightarrow>
        onError srv err w
          = Thrown x (w\<lparr>server_state := t',
                        psl_calls := psl_calls w @ [RemoveListener ''error'' OnError,
                                                    RemoveListener ''listening'' OnListening]\<rparr>)
        \<and> onListening srv w
          = Thrown x (w\<lparr>server_state := t',
                        psl_calls := psl_calls w @ [RemoveListener ''error'' OnError,
                                                    RemoveListener ''listening'' OnListening]\<rparr>))
   \<and> (is_thrown (invoke srv arg lsn w) \<longrightarrow>
        psl_settled (outcome_state (invoke srv arg lsn w)) = psl_settled w
        \<and> psl_log (outcome_state (invoke srv arg lsn w)) = psl_log w)"
proof -
  have c1: "\<exists>s'. betterClearInterval h s = Normal s'"
    by (rule betterClearInterval_normal)
  have c2: "member_truthy m \<and> call_member m s = Thrown e s' \<longrightarrow>
        betterClearInterval (Handle m) s
          = Normal (log_exception e ''_betterClearInterval() threw an exception!?'' s')"
    by simp
  have c3: "server_removeListener srv ''error'' OnError (server_state w) = Thrown x t \<longrightarrow>
        onError srv err w
          = Thrown x (w\<lparr>server_state := t,
                        psl_calls := psl_calls w @ [RemoveListener ''error'' OnError]\<rparr>)
        \<and> onListening srv w
          = Thrown x (w\<lparr>server_state := t,
                        psl_calls := psl_calls w @ [RemoveListener ''error'' OnError]\<rparr>)"
    by (simp add: onError_def onListening_def removeListeners_thrown)
  have c4: "server_removeListener srv ''error'' OnError (server_state w) = Normal t
      \<and> server_removeListener srv ''listening'' OnListening t = Thrown x t' \<longrightarrow>
        onError srv err w
          = Thrown x (w\<lparr>server_state := t',
                        psl_calls := psl_calls w @ [RemoveListener ''error'' OnError,
                                                    RemoveListener ''listening'' OnListening]\<rparr>)
        \<and> onListening srv w
          = Thrown x (w\<lparr>server_state := t',
                        psl_calls := psl_calls w @ [RemoveListener ''error'' OnError,
                                                    RemoveListener ''listening'' OnListening]\<rparr>)"
    by (simp add: onError_def onListening_def removeListeners_thrown_second)
  have c5: "is_thrown (invoke srv arg lsn w) \<longrightarrow>
        psl_settled (outcome_state (invoke srv arg lsn w)) = psl_settled w
        \<and> psl_log (outcome_state (invoke srv arg lsn w)) = psl_log w"
    using invoke_thrown_keeps [of srv arg lsn w] by blast
  from c1 c2 c3 c4 c5 show ?thesis by blast
qed

theorem cancellation_errors_caught_cleanup_errors_thrown_witness:
  "member_truthy (Method (\<lambda>s. Thrown (JError ''invalid handle'') s))
   \<and> call_member (Method (\<lambda>s. Thrown (JError ''invalid handle'') s))
        \<lparr>isRunning = True, timeoutId = None,
         bsi_timers = \<lparr>timer_next = 0, timer_pending = Map.empty\<rparr>,
         executions = 1, log_exceptions = []\<rparr>
       = Thrown (JError ''invalid handle'')
        \<lparr>isRunning = True, timeoutId = None,
         bsi_timers = \<lparr>timer_next = 0, timer_pending = Map.empty\<rparr>,
         executions = 1, log_exceptions = []\<rparr>
   \<and> betterClearInterval (Handle (Method (\<lambda>s. Thrown (JError ''invalid handle'') s)))
        \<lparr>isRunning = True, timeoutId = None,
         bsi_timers = \<lparr>timer_next = 0, timer_pending = Map.empty\<rparr>,
         executions = 1, log_exceptions = []\<rparr>
       = Normal
        \<lparr>isRunning = True, timeoutId = None,
         bsi_timers = \<lparr>timer_next = 0, timer_pending = Map.empty\<rparr>,
         executions = 1,
         log_exceptions = [(JError ''invalid handle'', ''_betterClearInterval() threw an exception!?'')]\<rparr>
   \<and> server_removeListener throwing_server ''error'' OnError
        (server_state (promisifyServerListen throwing_server 8080 ()))
       = Thrown (JError ''removeListener failed'') ()
   \<and> is_thrown (onError throwing_server (JError ''EADDRINUSE'')
        (promisifyServerListen throwing_server 8080 ()))
   \<and> server_removeListener late_throwing_server ''error'' OnError
        (server_state (promisifyServerListen late_throwing_server 8080 0))
       = Normal 1
   \<and> server_removeListener late_throwing_server ''listening'' OnListening 1
       = Thrown (JError ''no such listener'') 2
   \<and> onListening late_throwing_server (promisifyServerListen late_throwing_server 8080 0)
       = Thrown (JError ''no such listener'')
          \<lparr>server_state = 2,
           psl_calls = [On ''error'' OnError, On ''listening'' OnListening, Listen 8080,
                        RemoveListener ''error'' OnError,
                        RemoveListener ''listening'' OnListening],
           psl_settled = [], psl_log = []\<rparr>
   \<and> is_thrown (invoke late_throwing_server (JError ''EADDRINUSE'') OnError
        (promisifyServerListen late_throwing_server 8080 0))
   \<and> psl_settled (outcome_state (invoke late_throwing_server (JError ''EADDRINUSE'') OnError
        (promisifyServerListen late_throwing_server 8080 0))) = []
   \<and> psl_log (outcome_state (invoke late_throwing_server (JError ''EADDRINUSE'') OnError
        (promisifyServerListen late_throwing_server 8080 0))) = []"
proof -
  let ?m = "Method (\<lambda>s. Thrown (JError ''invalid handle'') s)"
  let ?s = "\<lparr>isRunning = True, timeoutId = None,
         bsi_timers = \<lparr>timer_next = 0, timer_pending = Map.empty\<rparr>,
         executions = 1, log_exceptions = []\<rparr>"
  let ?w = "promisifyServerListen throwing_server 8080 ()"
  let ?v = "promisifyServerListen late_throwing_server 8080 0"
  have v: "?v = \<lparr>server_state = 0,
      psl_calls = [On ''error'' OnError, On ''listening'' OnListening, Listen 8080],
      psl_settled = [], psl_log = []\<rparr>"
    by (simp add: promisifyServerListen_def psl_executor_def call_server_def
        late_throwing_server_def)
  have h1: "member_truthy ?m \<and> call_member ?m ?s = Thrown (JError ''invalid handle'') ?s"
    by simp
  have h2: "server_removeListener throwing_server ''error'' OnError (server_state ?w)
       = Thrown (JError ''removeListener failed'') ()"
    by (simp add: throwing_server_def)
  have h3: "server_removeListener late_throwing_server ''error'' OnError (server_state ?v)
       = Normal 1"
    by (simp add: v) (simp add: late_throwing_server_def)
  have h4: "server_removeListener late_throwing_server ''listening'' OnListening 1
       = Thrown (JError ''no such listener'') 2"
    by (simp add: late_throwing_server_def)
  have h5: "is_thrown (invoke late_throwing_server (JError ''EADDRINUSE'') OnError ?v)"
    by (simp add: v) (simp add: onError_def removeListeners_def call_server_def
        late_throwing_server_def)
  note first = cancellation_errors_caught_cleanup_errors_thrown
    [where h = "Handle ?m" and s = ?s and m = ?m and e = "JError ''invalid handle''"
       and s' = ?s and srv = throwing_server and w = ?w
       and x = "JError ''removeListener failed''" and t = "()" and t' = "()"
       and err = "JError ''EADDRINUSE''" and arg = "JError ''EADDRINUSE''" and lsn = OnError]
  note second = cancellation_errors_caught_cleanup_errors_thrown
    [where h = "Handle ?m" and s = ?s and m = ?m and e = "JError ''invalid handle''"
       and s' = ?s and srv = late_throwing_server and w = ?v
       and x = "JError ''no such listener''" and t = 1 and t' = 2
       and err = "JError ''EADDRINUSE''" and arg = "JError ''EADDRINUSE''" and lsn = OnError]
  from first h1 have c1: "betterClearInterval (Handle ?m) ?s
      = Normal (log_exception (JError ''invalid handle'')
          ''_betterClearInterval() threw an exception!?'' ?s)" by blast
  from first h2 have c2: "onError throwing_server (JError ''EADDRINUSE'') ?w
      = Thrown (JError ''removeListener failed'')
          (?w\<lparr>server_state := (),
               psl_calls := psl_calls ?w @ [RemoveListener ''error'' OnError]\<rparr>)" by blast
  from c2 have c3: "is_thrown (onError throwing_server (JError ''EADDRINUSE'') ?w)"
    by simp
  from second h3 h4 have "onListening late_throwing_server ?v
      = Thrown (JError ''no such listener'')
          (?v\<lparr>server_state := 2,
               psl_calls := psl_calls ?v @ [RemoveListener ''error'' OnError,
                                            RemoveListener ''listening'' OnListening]\<rparr>)"
    by blast
  then have c4: "onListening late_throwing_server ?v
      = Thrown (JError ''no such listener'')
          \<lparr>server_state = 2,
           psl_calls = [On ''error'' OnError, On ''listening'' OnListening, Listen 8080,
                        RemoveListener ''error'' OnError,
                        RemoveListener ''listening'' OnListening],
           psl_settled = [], psl_log = []\<rparr>"
    by (simp add: v)
  from second h5
  have "psl_settled (outcome_state (invoke late_throwing_server (JError ''EADDRINUSE'') OnError ?v))
        = psl_settled ?v
      \<and> psl_log (outcome_state (invoke late_throwing_server (JError ''EADDRINUSE'') OnError ?v))
        = psl_log ?v"
    by blast
  then have c5: "psl_settled (outcome_state
        (invoke late_throwing_server (JError ''EADDRINUSE'') OnError ?v)) = []
      \<and> psl_log (outcome_state
        (invoke late_throwing_server (JError ''EADDRINUSE'') OnError ?v)) = []"
    by (simp add: v)
  from c1 have c1': "betterClearInterval (Handle ?m) ?s
      = Normal
        \<lparr>isRunning = True, timeoutId = None,
         bsi_timers = \<lparr>timer_next = 0, timer_pending = Map.empty\<rparr>,
         executions = 1,
         log_exceptions = [(JError ''invalid handle'', ''_betterClearInterval() threw an exception!?'')]\<rparr>"
    by (simp add: log_exception_def)
  from h1 h2 h3 h4 h5 c1' c3 c4 c5 show ?thesis by blast
qed

text \<open>
  The claim as written fails on a server whose \<open>removeListener\<close> throws: the exception leaves
  \<open>onListening\<close>, and the promise stays pending.
\<close>

theorem cleanup_exception_propagates_counterexample:
  "onListening throwing_server (promisifyServerListen throwing_server 8080 ())
     = Thrown (JError ''removeListener failed'')
        \<lparr>server_state = (),
         psl_calls = [On ''error'' OnError, On ''listening'' OnListening, Listen 8080,
                      RemoveListener ''error'' OnError],
         psl_settled = [], psl_log = []\<rparr>"
  by (simp add: onListening_def removeListeners_def call_server_def throwing_server_def
      promisifyServerListen_def psl_executor_def)
section \<open>Properties of the pattern reader and the matcher\<close>

subsection \<open>Reading plain characters and bars\<close>

lemma plain_char_cases:
  "plain_char c \<Longrightarrow> c \<in> set ''abcdefghijklmnopqrstuvwxyz0123456789-_''"
  by (simp only: plain_char_def)

lemma plain_char_not_special:
  assumes "plain_char c"
  shows "c \<notin> set ''()|*+?{[.^$}]''" and "c \<noteq> backslash"
  using assms unfolding plain_char_def backslash_def by auto

lemma pnormal_plain:
  "plain_char c \<Longrightarrow> pnormal c fr stack = (PNormal, push_term (RChar c) fr, stack)"
  using plain_char_not_special [of c] by simp

lemma read_plain:
  "plain_item x \<Longrightarrow>
   foldl pstep (PNormal, (alts, seq), stack) x = (PNormal, (alts, rev (map RChar x) @ seq), stack)"
proof (induction x arbitrary: seq)
  case Nil
  then show ?case by simp
next
  case (Cons c x)
  then have c: "plain_char c" and x: "plain_item x" by (simp_all add: plain_item_def)
  have "pstep (PNormal, (alts, seq), stack) c = (PNormal, (alts, RChar c # seq), stack)"
    using pnormal_plain [OF c] by (simp add: push_term_def)
  with Cons.IH [OF x, of "RChar c # seq"] show ?case by simp
qed

lemma item_terms_plain: "plain_item x \<Longrightarrow> item_terms x = rev (map RChar x)"
  by (simp add: item_terms_def read_plain)

lemma alternative_of_plain: "plain_item x \<Longrightarrow> alternative_of x = mk_seq (map RChar x)"
  by (simp add: alternative_of_def item_terms_plain)

lemma framed_plain: "plain_item x \<Longrightarrow> framed x"
  by (simp add: framed_def read_plain item_terms_plain)

lemma read_bar:
  "pstep (PNormal, (alts, seq), stack) (CHR ''|'') = (PNormal, (mk_seq (rev seq) # alts, []), stack)"
  by simp

lemma read_join:
  assumes "\<forall>x \<in> set xs. framed x" and "xs \<noteq> []"
  shows "foldl pstep (PNormal, (alts, []), stack) (join ''|'' xs)
     = (PNormal, (rev (map alternative_of (butlast xs)) @ alts, item_terms (last xs)), stack)"
  using assms
proof (induction xs arbitrary: alts)
  case Nil
  then show ?case by simp
next
  case (Cons x xs)
  from Cons.prems have fx: "framed x" by simp
  show ?case
  proof (cases "xs = []")
    case True
    with fx show ?thesis by (simp add: framed_def)
  next
    case False
    then obtain y ys where ys: "xs = y # ys" by (cases xs) auto
    from False Cons.prems have rest: "\<forall>x \<in> set xs. framed x" "xs \<noteq> []" by simp_all
    have "foldl pstep (PNormal, (alts, []), stack) (join ''|'' (x # xs))
        = foldl pstep (foldl pstep (foldl pstep (PNormal, (alts, []), stack) x) ''|'')
            (join ''|'' xs)"
      by (simp add: ys)
    also have "\<dots> = foldl pstep (PNormal, (alternative_of x # alts, []), stack) (join ''|'' xs)"
      using fx by (simp add: framed_def alternative_of_def)
    also have "\<dots> = (PNormal, (rev (map alternative_of (butlast xs)) @ alternative_of x # alts,
        item_terms (last xs)), stack)"
      by (rule Cons.IH [OF rest])
    finally show ?thesis using rest(2) by simp
  qed
qed

lemma mk_alt_snoc_rev:
  "mk_alt (rev (mk_seq (rev (item_terms (last xs))) # rev (map alternative_of (butlast xs))))
     = mk_alt (map alternative_of (butlast xs @ [last xs]))"
  by (simp add: alternative_of_def)

lemma RegExp_anchored_group:
  assumes "\<forall>x \<in> set xs. framed x" and "xs \<noteq> []"
  shows "RegExp (''^('' @ join ''|'' xs @ '')$'')
     = Some (RSeq RBol (RSeq (RGroup (mk_alt (map alternative_of xs))) REol))"
proof -
  have a: "foldl pstep (PNormal, ([], []), []) ''^('' = (PNormal, ([], []), [([], [RBol])])"
    by (simp add: push_term_def backslash_def)
  have b: "foldl pstep (PNormal, ([], []), [([], [RBol])]) (join ''|'' xs)
      = (PNormal, (rev (map alternative_of (butlast xs)), item_terms (last xs)), [([], [RBol])])"
    using read_join [OF assms, of "[]" "[([], [RBol])]"] by simp
  have c: "foldl pstep
        (PNormal, (rev (map alternative_of (butlast xs)), item_terms (last xs)), [([], [RBol])])
        '')$''
      = (PNormal, ([], [REol, RGroup (mk_alt (map alternative_of xs)), RBol]), [])"
    using assms(2) mk_alt_snoc_rev [of xs]
    by (simp add: push_term_def close_frame_def backslash_def)
  show ?thesis
    unfolding RegExp_def foldl_append a b c
    by (simp add: close_frame_def)
qed

subsection \<open>Upper and lower case\<close>

lemma char_code_less: "char_code c < 256"
proof -
  have "of_char c mod 256 = (of_char c :: nat)" by simp
  then show ?thesis unfolding char_code_def by (metis mod_less_divisor zero_less_numeral)
qed

lemma char_code_char_of: "n < 256 \<Longrightarrow> char_code (char_of n) = n"
  by (simp add: char_code_def)

lemma char_of_char_code: "char_of (char_code c) = c"
  by (simp add: char_code_def)

lemma char_code_inject: "char_code a = char_code b \<Longrightarrow> a = b"
  by (metis char_of_char_code)

lemma to_lower_to_upper: "to_lower (to_upper c) = to_lower c"
proof -
  have n: "char_code c < 256" by (rule char_code_less)
  show ?thesis
  proof (cases "in_range 97 122 (char_code c)
      \<or> (in_range 224 254 (char_code c) \<and> char_code c \<noteq> 247)")
    case True
    then have u: "to_upper c = char_of (char_code c - 32)" by (simp add: to_upper_def Let_def)
    from True n have m: "char_code (char_of (char_code c - 32)) = char_code c - 32"
      by (simp add: char_code_char_of)
    from True have up: "in_range 65 90 (char_code c - 32)
        \<or> (in_range 192 222 (char_code c - 32) \<and> char_code c - 32 \<noteq> 215)"
      by (auto simp add: in_range_def)
    from True have low: "\<not> (in_range 65 90 (char_code c)
        \<or> (in_range 192 222 (char_code c) \<and> char_code c \<noteq> 215))"
      by (auto simp add: in_range_def)
    from True have restore: "char_code c - 32 + 32 = char_code c" by (auto simp add: in_range_def)
    have "to_lower (to_upper c) = char_of (char_code c - 32 + 32)"
      using up by (simp add: u to_lower_def Let_def m)
    also have "\<dots> = c" by (simp only: restore char_of_char_code)
    also have "c = to_lower c" by (simp only: to_lower_def Let_def low if_False)
    finally show ?thesis .
  next
    case False
    then show ?thesis by (simp only: to_upper_def Let_def if_False)
  qed
qed

lemma to_upper_to_lower: "to_upper (to_lower c) = to_upper c"
proof -
  have n: "char_code c < 256" by (rule char_code_less)
  show ?thesis
  proof (cases "in_range 65 90 (char_code c)
      \<or> (in_range 192 222 (char_code c) \<and> char_code c \<noteq> 215)")
    case True
    then have l: "to_lower c = char_of (char_code c + 32)" by (simp add: to_lower_def Let_def)
    from True n have m: "char_code (char_of (char_code c + 32)) = char_code c + 32"
      by (auto simp add: char_code_char_of in_range_def)
    from True have lo: "in_range 97 122 (char_code c + 32)
        \<or> (in_range 224 254 (char_code c + 32) \<and> char_code c + 32 \<noteq> 247)"
      by (auto simp add: in_range_def)
    from True have up: "\<not> (in_range 97 122 (char_code c)
        \<or> (in_range 224 254 (char_code c) \<and> char_code c \<noteq> 247))"
      by (auto simp add: in_range_def)
    have "to_upper (to_lower c) = char_of (char_code c + 32 - 32)"
      using lo by (simp add: l to_upper_def Let_def m)
    also have "\<dots> = c" by (simp only: add_diff_cancel_right' char_of_char_code)
    also have "c = to_upper c" by (simp only: to_upper_def Let_def up if_False)
    finally show ?thesis .
  next
    case False
    then show ?thesis by (simp only: to_lower_def Let_def if_False)
  qed
qed

lemma canonicalize_eq_iff:
  "canonicalize True a = canonicalize True b \<longleftrightarrow> to_lower a = to_lower b"
proof
  assume "canonicalize True a = canonicalize True b"
  then have "to_lower (to_upper a) = to_lower (to_upper b)" by (simp add: canonicalize_def)
  then show "to_lower a = to_lower b" by (simp only: to_lower_to_upper)
next
  assume "to_lower a = to_lower b"
  then have "to_upper (to_lower a) = to_upper (to_lower b)" by simp
  then show "canonicalize True a = canonicalize True b"
    by (simp only: to_upper_to_lower canonicalize_def if_True)
qed

lemma to_lower_plain: "plain_char c \<Longrightarrow> to_lower c = c"
  unfolding plain_char_def
  by (auto simp add: to_lower_def char_code_def in_range_def)

lemma map_to_lower_plain: "plain_item x \<Longrightarrow> map to_lower x = x"
  by (induction x) (simp_all add: plain_item_def to_lower_plain)

subsection \<open>Matching sequences and alternatives\<close>

lemma concat_map_single: "concat (map (\<lambda>q. [q]) qs) = qs"
  by (induction qs) simp_all

lemma concat_map_REmpty: "concat (map (rmatch ic REmpty) qs) = qs"
  by (induction qs) simp_all

lemma rmatch_mk_seq_Cons:
  "rmatch ic (mk_seq (t # ts)) p = concat (map (rmatch ic (mk_seq ts)) (rmatch ic t p))"
proof (cases ts)
  case Nil
  then show ?thesis by (simp add: concat_map_REmpty)
next
  case (Cons u us)
  then show ?thesis by simp
qed

lemma rmatch_mk_alt:
  "as \<noteq> [] \<Longrightarrow> rmatch ic (mk_alt as) p = concat (map (\<lambda>a. rmatch ic a p) as)"
  by (induction as rule: mk_alt.induct) simp_all

lemma rmatch_plain:
  "rmatch ic (mk_seq (map RChar x)) (n, s)
     = (if length x \<le> length s
          \<and> map (canonicalize ic) (take (length x) s) = map (canonicalize ic) x
        then [(n + length x, drop (length x) s)] else [])"
proof (induction x arbitrary: n s)
  case Nil
  then show ?case by simp
next
  case (Cons c x)
  show ?case
  proof (cases s)
    case Nil
    then show ?thesis by (simp add: rmatch_mk_seq_Cons del: mk_seq.simps)
  next
    case (Cons d s')
    then show ?thesis
      using Cons.IH [of "Suc n" s']
      by (simp add: rmatch_mk_seq_Cons del: mk_seq.simps)
  qed
qed

lemma full_match_plain:
  "full_match True (mk_seq (map RChar x)) s \<longleftrightarrow> map to_lower s = map to_lower x"
proof -
  have eq: "map (canonicalize True) a = map (canonicalize True) b \<longleftrightarrow> map to_lower a = map to_lower b"
    for a b
  proof (induction a arbitrary: b)
    case Nil
    then show ?case by auto
  next
    case (Cons c a)
    then show ?case by (cases b) (simp_all add: canonicalize_eq_iff)
  qed
  show ?thesis
  proof (cases "length x \<le> length s")
    case True
    show ?thesis
    proof (cases "length s \<le> length x")
      case True
      with \<open>length x \<le> length s\<close> have "length x = length s" by simp
      then show ?thesis by (simp add: full_match_def rmatch_plain eq)
    next
      case False
      then have "map to_lower s \<noteq> map to_lower x"
        by (metis length_map order_refl)
      with False show ?thesis by (simp add: full_match_def rmatch_plain)
    qed
  next
    case False
    then have "map to_lower s \<noteq> map to_lower x"
      by (metis length_map order_refl)
    with False show ?thesis by (simp add: full_match_def rmatch_plain)
  qed
qed

lemma full_match_plain_item:
  "plain_item x \<Longrightarrow> full_match True (alternative_of x) s \<longleftrightarrow> map to_lower s = x"
  by (simp add: alternative_of_plain full_match_plain map_to_lower_plain)

subsection \<open>Anchored patterns\<close>

lemma regexp_exec_Bol_later:
  "0 < n \<Longrightarrow> regexp_exec ic (RSeq RBol r) (n, s) = None"
  by (induction s arbitrary: n) simp_all

lemma regexp_exec_Bol:
  "regexp_exec ic (RSeq RBol r) (0, s) \<noteq> None \<longleftrightarrow> rmatch ic r (0, s) \<noteq> []"
proof (cases "rmatch ic r (0, s)")
  case Nil
  then have m: "rmatch ic (RSeq RBol r) (0, s) = []" by simp
  have "regexp_exec ic (RSeq RBol r) (0, s) = None"
  proof (cases s)
    case Nil
    have "regexp_exec ic (RSeq RBol r) (0, []) = None"
      using m by (simp only: regexp_exec.simps [of ic "RSeq RBol r" 0 "[]"] Nil list.case)
    then show ?thesis by (simp only: Nil)
  next
    case (Cons x xs)
    have "regexp_exec ic (RSeq RBol r) (0, x # xs) = regexp_exec ic (RSeq RBol r) (Suc 0, xs)"
      using m by (simp only: regexp_exec.simps [of ic "RSeq RBol r" 0 "x # xs"] Cons list.case)
    also have "\<dots> = None" by (rule regexp_exec_Bol_later) simp
    finally show ?thesis by (simp only: Cons)
  qed
  with Nil show ?thesis by simp
next
  case (Cons q qs)
  then have m: "rmatch ic (RSeq RBol r) (0, s) = q # qs" by simp
  have "regexp_exec ic (RSeq RBol r) (0, s) = Some (0, fst q)"
    using m by (simp only: regexp_exec.simps [of ic "RSeq RBol r" 0 s] list.case)
  with Cons show ?thesis by simp
qed

lemma rmatch_Eol:
  "concat (map (rmatch ic REol) qs) \<noteq> [] \<longleftrightarrow> list_ex (\<lambda>q. snd q = []) qs"
  by (induction qs) simp_all

lemma list_ex_concat_map:
  "list_ex P (concat (map f xs)) \<longleftrightarrow> list_ex (\<lambda>x. list_ex P (f x)) xs"
  by (induction xs) simp_all

lemma anchored_group_test:
  assumes "xs \<noteq> []"
  shows "regexp_test True (Some (RSeq RBol (RSeq (RGroup (mk_alt (map alternative_of xs))) REol))) s
     = Some (list_ex (\<lambda>x. full_match True (alternative_of x) s) xs)"
proof -
  let ?alts = "map alternative_of xs"
  have "regexp_exec True (RSeq RBol (RSeq (RGroup (mk_alt ?alts)) REol)) (0, s) \<noteq> None
      \<longleftrightarrow> rmatch True (RSeq (RGroup (mk_alt ?alts)) REol) (0, s) \<noteq> []"
    by (rule regexp_exec_Bol)
  also have "\<dots> \<longleftrightarrow> list_ex (\<lambda>q. snd q = []) (rmatch True (mk_alt ?alts) (0, s))"
    by (simp only: rmatch.simps(5) rmatch.simps(7) rmatch_Eol)
  also have "\<dots> \<longleftrightarrow> list_ex (\<lambda>q. snd q = []) (concat (map (\<lambda>a. rmatch True a (0, s)) ?alts))"
    using assms by (simp only: rmatch_mk_alt map_is_Nil_conv not_False_eq_True)
  also have "\<dots> \<longleftrightarrow> list_ex (\<lambda>x. full_match True (alternative_of x) s) xs"
    by (simp only: list_ex_concat_map full_match_def) (simp add: list_ex_iff)
  finally show ?thesis by (simp add: regexp_test_def)
qed

section \<open>Properties of isForbiddenUsername\<close>

subsection \<open>The items of the list\<close>

lemma plain_char_simps:
  "plain_char CHR ''a''" "plain_char CHR ''b''" "plain_char CHR ''c''" "plain_char CHR ''d''"
  "plain_char CHR ''e''" "plain_char CHR ''f''" "plain_char CHR ''g''" "plain_char CHR ''h''"
  "plain_char CHR ''i''" "plain_char CHR ''j''" "plain_char CHR ''k''" "plain_char CHR ''l''"
  "plain_char CHR ''m''" "plain_char CHR ''n''" "plain_char CHR ''o''" "plain_char CHR ''p''"
  "plain_char CHR ''q''" "plain_char CHR ''r''" "plain_char CHR ''s''" "plain_char CHR ''t''"
  "plain_char CHR ''u''" "plain_char CHR ''v''" "plain_char CHR ''w''" "plain_char CHR ''x''"
  "plain_char CHR ''y''" "plain_char CHR ''z''" "plain_char CHR ''0''" "plain_char CHR ''1''"
  "plain_char CHR ''2''" "plain_char CHR ''3''" "plain_char CHR ''4''" "plain_char CHR ''5''"
  "plain_char CHR ''6''" "plain_char CHR ''7''" "plain_char CHR ''8''" "plain_char CHR ''9''"
  "plain_char CHR ''-''" "plain_char CHR ''_''"
  by (simp_all add: plain_char_def)

lemma not_plain_char_simps:
  "\<not> plain_char CHR ''(''" "\<not> plain_char CHR '')''" "\<not> plain_char CHR ''.''"
  "\<not> plain_char CHR ''*''" "\<not> plain_char CHR ''+''" "\<not> plain_char CHR ''[''"
  "\<not> plain_char CHR '']''" "\<not> plain_char CHR ''^''" "\<not> plain_char CHR ''{''"
  "\<not> plain_char CHR ''}''" "\<not> plain_char CHR ''A''" "\<not> plain_char CHR ''B''"
  "\<not> plain_char CHR ''S''" "\<not> plain_char backslash"
  by (simp_all add: plain_char_def backslash_def)

lemma items_classified:
  "list_all (\<lambda>x. if plain_item x then True else x \<in> set special_items)
     (ANONYMOUS_USERNAME # FORBIDDEN_USERNAMES_REGEXPS)"
  by (simp add: ANONYMOUS_USERNAME_def FORBIDDEN_USERNAMES_REGEXPS_def plain_item_def
      plain_char_simps not_plain_char_simps special_items_def)

lemma plain_or_special:
  "x \<in> set (ANONYMOUS_USERNAME # FORBIDDEN_USERNAMES_REGEXPS) \<Longrightarrow>
   \<not> plain_item x \<Longrightarrow> x \<in> set special_items"
  using items_classified unfolding list_all_iff by (auto split: if_splits)

lemma framed_special: "list_all framed special_items"
  by (simp add: special_items_def framed_def item_terms_def backslash_def push_term_def
      close_frame_def is_alnum_def is_digit_def in_range_def char_code_def)

lemma framed_items:
  "\<forall>x \<in> set (ANONYMOUS_USERNAME # FORBIDDEN_USERNAMES_REGEXPS). framed x"
proof
  fix x
  assume x: "x \<in> set (ANONYMOUS_USERNAME # FORBIDDEN_USERNAMES_REGEXPS)"
  show "framed x"
  proof (cases "plain_item x")
    case True
    then show ?thesis by (rule framed_plain)
  next
    case False
    with x have "x \<in> set special_items" by (rule plain_or_special)
    with framed_special show ?thesis by (simp only: list_all_iff)
  qed
qed

lemma FORBIDDEN_USERNAMES_REGEXPS_not_Nil: "FORBIDDEN_USERNAMES_REGEXPS \<noteq> []"
  by (simp add: FORBIDDEN_USERNAMES_REGEXPS_def)

lemma join_Cons: "xs \<noteq> [] \<Longrightarrow> join sep (x # xs) = x @ sep @ join sep xs"
  by (cases xs) simp_all

text \<open>
  The pattern that the module builds: anchored at both ends, one group, one alternative for
  the anonymous username and one for each item of the list, in order.
\<close>

lemma FORBIDDEN_REGEXP_eq:
  "FORBIDDEN_REGEXP
     = Some (RSeq RBol (RSeq (RGroup (mk_alt
         (map alternative_of (ANONYMOUS_USERNAME # FORBIDDEN_USERNAMES_REGEXPS)))) REol))"
proof -
  have src: "''^('' @ ANONYMOUS_USERNAME @ ''|'' @ join ''|'' FORBIDDEN_USERNAMES_REGEXPS @ '')$''
      = ''^('' @ join ''|'' (ANONYMOUS_USERNAME # FORBIDDEN_USERNAMES_REGEXPS) @ '')$''"
    by (simp only: join_Cons [OF FORBIDDEN_USERNAMES_REGEXPS_not_Nil] append_assoc)
  show ?thesis
    unfolding FORBIDDEN_REGEXP_def src
    by (rule RegExp_anchored_group [OF framed_items]) simp
qed

text \<open>
  A username is forbidden exactly when one of the alternatives matches the whole of it. A plain
  item matches exactly the strings whose lower-case form it is, so a username that is forbidden
  either has a plain item as its lower-case form or is matched by one of the other items.
\<close>

lemma isForbiddenUsername_list_ex:
  "isForbiddenUsername s
     = Some (list_ex (\<lambda>x. full_match True (alternative_of x) s)
         (ANONYMOUS_USERNAME # FORBIDDEN_USERNAMES_REGEXPS))"
  unfolding isForbiddenUsername_def FORBIDDEN_REGEXP_eq
  by (rule anchored_group_test) simp

lemma forbidden_if:
  assumes "x \<in> set (ANONYMOUS_USERNAME # FORBIDDEN_USERNAMES_REGEXPS)"
    and "full_match True (alternative_of x) s"
  shows "isForbiddenUsername s = Some True"
  using assms unfolding isForbiddenUsername_list_ex list_ex_iff by blast

lemma forbidden_if_plain:
  assumes "map to_lower s \<in> set (ANONYMOUS_USERNAME # FORBIDDEN_USERNAMES_REGEXPS)"
    and "plain_item (map to_lower s)"
  shows "isForbiddenUsername s = Some True"
  using assms(1)
proof (rule forbidden_if)
  show "full_match True (alternative_of (map to_lower s)) s"
    using assms(2) by (simp add: full_match_plain_item)
qed

lemma not_forbidden_if:
  assumes "map to_lower s \<notin> set (ANONYMOUS_USERNAME # FORBIDDEN_USERNAMES_REGEXPS)"
    and "\<not> list_ex (\<lambda>x. full_match True (alternative_of x) s) special_items"
  shows "isForbiddenUsername s = Some False"
proof -
  have "\<not> full_match True (alternative_of x) s"
    if x: "x \<in> set (ANONYMOUS_USERNAME # FORBIDDEN_USERNAMES_REGEXPS)" for x
  proof (cases "plain_item x")
    case True
    with assms(1) x show ?thesis by (auto simp add: full_match_plain_item)
  next
    case False
    with x have "x \<in> set special_items" by (rule plain_or_special)
    with assms(2) show ?thesis unfolding list_ex_iff by blast
  qed
  then show ?thesis unfolding isForbiddenUsername_list_ex list_ex_iff by blast
qed

subsection \<open>Examples\<close>

lemma hidden_matched: "full_match True (alternative_of (''('' @ backslash # ''..*)'')) ''.hidden''"
  by code_simp

lemma hidden_listed: "''('' @ backslash # ''..*)'' \<in> set FORBIDDEN_USERNAMES_REGEXPS"
  by (simp add: FORBIDDEN_USERNAMES_REGEXPS_def)

lemma repeated_matched:
  "full_match True (alternative_of (''(.*[_.'' @ backslash # ''-]{2}.*)'')) ''a__b''"
  by code_simp

lemma repeated_listed:
  "''(.*[_.'' @ backslash # ''-]{2}.*)'' \<in> set FORBIDDEN_USERNAMES_REGEXPS"
  by (simp add: FORBIDDEN_USERNAMES_REGEXPS_def)

lemma leading_matched: "full_match True (alternative_of ''([^0-9a-z].*)'') ''-leading''"
  by code_simp

lemma leading_listed: "''([^0-9a-z].*)'' \<in> set FORBIDDEN_USERNAMES_REGEXPS"
  by (simp add: FORBIDDEN_USERNAMES_REGEXPS_def)

lemma trailing_matched: "full_match True (alternative_of ''(.*[^0-9a-z])'') ''trailing-''"
  by code_simp

lemma trailing_listed: "''(.*[^0-9a-z])'' \<in> set FORBIDDEN_USERNAMES_REGEXPS"
  by (simp add: FORBIDDEN_USERNAMES_REGEXPS_def)

lemma lower_ADMIN: "map to_lower ''ADMIN'' = ''admin''"
  by code_simp

lemma admin_listed: "''admin'' \<in> set FORBIDDEN_USERNAMES_REGEXPS"
  by (simp add: FORBIDDEN_USERNAMES_REGEXPS_def)

lemma special_none_scraper:
  "\<not> list_ex (\<lambda>x. full_match True (alternative_of x) ''my-cool-scraper'') special_items"
  by code_simp

lemma scraper_not_listed:
  "''my-cool-scraper'' \<notin> set (ANONYMOUS_USERNAME # FORBIDDEN_USERNAMES_REGEXPS)"
  by (simp add: FORBIDDEN_USERNAMES_REGEXPS_def ANONYMOUS_USERNAME_def)

lemma special_none_empty:
  "\<not> list_ex (\<lambda>x. full_match True (alternative_of x) []) special_items"
  by code_simp

lemma empty_not_listed:
  "[] \<notin> set (ANONYMOUS_USERNAME # FORBIDDEN_USERNAMES_REGEXPS)"
  by (simp add: FORBIDDEN_USERNAMES_REGEXPS_def ANONYMOUS_USERNAME_def)

text \<open>
  C6. \<open>isForbiddenUsername\<close> is true of \<open>anonymous\<close>, \<open>.hidden\<close>, \<open>a__b\<close>,
  \<open>-leading\<close>, \<open>trailing-\<close> and \<open>ADMIN\<close>, false of \<open>my-cool-scraper\<close>, and false of
  the empty string, which no alternative of the pattern matches.
\<close>

theorem isForbiddenUsername_examples:
  "isForbiddenUsername ''anonymous'' = Some True
   \<and> isForbiddenUsername ''.hidden'' = Some True
   \<and> isForbiddenUsername ''a__b'' = Some True
   \<and> isForbiddenUsername ''-leading'' = Some True
   \<and> isForbiddenUsername ''trailing-'' = Some True
   \<and> isForbiddenUsername ''ADMIN'' = Some True
   \<and> isForbiddenUsername ''my-cool-scraper'' = Some False
   \<and> isForbiddenUsername [] = Some False
   \<and> \<not> list_ex (\<lambda>x. full_match True (alternative_of x) [])
         (ANONYMOUS_USERNAME # FORBIDDEN_USERNAMES_REGEXPS)"
proof -
  have anonymous: "isForbiddenUsername ''anonymous'' = Some True"
  proof (rule forbidden_if_plain)
    have p: "plain_item ''anonymous''" by (simp add: plain_item_def plain_char_simps)
    then have l: "map to_lower ''anonymous'' = ''anonymous''" by (rule map_to_lower_plain)
    from p show "plain_item (map to_lower ''anonymous'')" by (simp only: l)
    show "map to_lower ''anonymous'' \<in> set (ANONYMOUS_USERNAME # FORBIDDEN_USERNAMES_REGEXPS)"
      by (simp only: l) (simp add: ANONYMOUS_USERNAME_def)
  qed
  have hidden: "isForbiddenUsername ''.hidden'' = Some True"
    using hidden_listed by (intro forbidden_if [OF _ hidden_matched]) simp
  have repeated: "isForbiddenUsername ''a__b'' = Some True"
    using repeated_listed by (intro forbidden_if [OF _ repeated_matched]) simp
  have leading: "isForbiddenUsername ''-leading'' = Some True"
    using leading_listed by (intro forbidden_if [OF _ leading_matched]) simp
  have trailing: "isForbiddenUsername ''trailing-'' = Some True"
    using trailing_listed by (intro forbidden_if [OF _ trailing_matched]) simp
  have admin: "isForbiddenUsername ''ADMIN'' = Some True"
  proof (rule forbidden_if_plain)
    show "plain_item (map to_lower ''ADMIN'')"
      by (simp only: lower_ADMIN) (simp add: plain_item_def plain_char_simps)
    show "map to_lower ''ADMIN'' \<in> set (ANONYMOUS_USERNAME # FORBIDDEN_USERNAMES_REGEXPS)"
      using admin_listed by (simp only: lower_ADMIN) simp
  qed
  have scraper: "isForbiddenUsername ''my-cool-scraper'' = Some False"
  proof (rule not_forbidden_if)
    have "plain_item ''my-cool-scraper''" by (simp add: plain_item_def plain_char_simps)
    then have l: "map to_lower ''my-cool-scraper'' = ''my-cool-scraper''"
      by (rule map_to_lower_plain)
    show "map to_lower ''my-cool-scraper''
        \<notin> set (ANONYMOUS_USERNAME # FORBIDDEN_USERNAMES_REGEXPS)"
      unfolding l by (rule scraper_not_listed)
    show "\<not> list_ex (\<lambda>x. full_match True (alternative_of x) ''my-cool-scraper'') special_items"
      by (rule special_none_scraper)
  qed
  have empty: "isForbiddenUsername [] = Some False"
  proof (rule not_forbidden_if)
    show "map to_lower [] \<notin> set (ANONYMOUS_USERNAME # FORBIDDEN_USERNAMES_REGEXPS)"
      using empty_not_listed by simp
    show "\<not> list_ex (\<lambda>x. full_match True (alternative_of x) []) special_items"
      by (rule special_none_empty)
  qed
  from empty have none: "\<not> list_ex (\<lambda>x. full_match True (alternative_of x) [])
         (ANONYMOUS_USERNAME # FORBIDDEN_USERNAMES_REGEXPS)"
    unfolding isForbiddenUsername_list_ex by simp
  from anonymous hidden repeated leading trailing admin scraper empty none show ?thesis
    by (simp only: simp_thms)
qed

section \<open>Properties of deterministicUniqueId\<close>

lemma length_sha_digest: "length (sha_digest st) = 32"
  by (cases st rule: sha_digest.cases) (simp add: be32_bytes_def)

lemma length_sha256: "length (sha256 msg) = 32"
  by (simp add: sha256_def Let_def length_sha_digest)

lemma length_base64: "length (base64 bytes) = 4 * ((length bytes + 2) div 3)"
proof (induction bytes rule: base64.induct)
  case (4 a b c rest)
  have "(length (a # b # c # rest) + 2) div 3 = Suc ((length rest + 2) div 3)" by simp
  with 4 show ?case by simp
qed simp_all

lemma rmatch_plus_slash_equals_Nil: "rmatch False plus_slash_equals (n, []) = []"
  by (simp add: plus_slash_equals_def)

lemma rmatch_plus_slash_equals_Cons:
  "rmatch False plus_slash_equals (n, c # cs)
     = (if c = CHR ''+'' \<or> c = CHR ''/'' \<or> c = CHR ''='' then [(Suc n, cs)] else [])"
  by (simp add: plus_slash_equals_def canonicalize_def)

lemma replace_loop_plus_slash_equals:
  "replace_loop plus_slash_equals ''x'' 0 n s
     = map (\<lambda>c. if c = CHR ''+'' \<or> c = CHR ''/'' \<or> c = CHR ''='' then CHR ''x'' else c) s"
proof (induction s arbitrary: n)
  case Nil
  then show ?case by (simp add: rmatch_plus_slash_equals_Nil)
next
  case (Cons c cs)
  show ?case
  proof (cases "c = CHR ''+'' \<or> c = CHR ''/'' \<or> c = CHR ''=''")
    case True
    then have "replace_loop plus_slash_equals ''x'' 0 n (c # cs)
        = ''x'' @ replace_loop plus_slash_equals ''x'' 0 (Suc n) cs"
      by (simp add: rmatch_plus_slash_equals_Cons)
    with True Cons.IH [of "Suc n"] show ?thesis by simp
  next
    case False
    then have "replace_loop plus_slash_equals ''x'' 0 n (c # cs)
        = c # replace_loop plus_slash_equals ''x'' 0 (Suc n) cs"
      by (simp add: rmatch_plus_slash_equals_Cons)
    with False Cons.IH [of "Suc n"] show ?thesis by simp
  qed
qed

lemma substr_from_start: "substr 0 len s = take (nat len) s"
proof -
  have "take (nat (min (max len 0) (int (length s)))) s = take (nat len) s"
  proof (cases "len \<le> int (length s)")
    case True
    then show ?thesis by (simp add: min_def max_def)
  next
    case False
    then have "length s \<le> nat len" by simp
    with False show ?thesis by (simp add: min_def max_def)
  qed
  then show ?thesis by (simp add: substr_def Let_def)
qed

lemma RegExp_plus_slash_equals:
  "RegExp (''('' @ backslash # ''+|'' @ backslash # ''/|=)'') = Some plus_slash_equals"
  by (simp add: RegExp_def plus_slash_equals_def backslash_def push_term_def close_frame_def
      is_alnum_def in_range_def char_code_def)

subsection \<open>Bit strings\<close>

lemma length_bits: "length (bits k n) = k"
  by (induction k arbitrary: n) simp_all

lemma bits_value_snoc: "bits_value (bs @ [b]) = 2 * bits_value bs + (if b then 1 else 0)"
  by (simp add: bits_value_def)

lemma bits_value_Nil: "bits_value [] = 0"
  by (simp add: bits_value_def)

lemma bits_value_append:
  "bits_value (xs @ ys) = bits_value xs * 2 ^ length ys + bits_value ys"
proof (induction ys rule: rev_induct)
  case Nil
  then show ?case by (simp add: bits_value_Nil)
next
  case (snoc y ys)
  have "bits_value (xs @ ys @ [y]) = 2 * bits_value (xs @ ys) + (if y then 1 else 0)"
    using bits_value_snoc [of "xs @ ys" y] by simp
  with snoc show ?case by (simp add: bits_value_snoc algebra_simps)
qed

lemma bits_value_Cons:
  "bits_value (b # bs) = (if b then 2 ^ length bs else 0) + bits_value bs"
  using bits_value_append [of "[b]" bs] by (simp add: bits_value_def)

lemma bits_value_bits: "bits_value (bits k n) = n mod 2 ^ k"
proof (induction k arbitrary: n)
  case 0
  then show ?case by (simp add: bits_value_Nil)
next
  case (Suc k)
  have "n mod (2 * 2 ^ k) = 2 * (n div 2 mod 2 ^ k) + n mod 2"
    using zmod_zmult2_eq [of "2 ^ k" n 2] by simp
  moreover have "n mod 2 = (if odd n then 1 else 0)"
    by (simp add: odd_iff_mod_2_eq_one)
  ultimately show ?case using Suc [of "n div 2"]
    by (simp add: bits_value_snoc)
qed

lemma bits_add: "bits (j + k) n = bits j (n div 2 ^ k) @ bits k n"
proof (induction k arbitrary: n)
  case 0
  then show ?case by simp
next
  case (Suc k)
  have "n div 2 div 2 ^ k = n div (2 * 2 ^ k)"
    using zdiv_zmult2_eq [of "2 ^ k" n 2] by simp
  with Suc [of "n div 2"] show ?case by simp
qed

lemma take_bits: "j \<le> k \<Longrightarrow> take j (bits k n) = bits j (n div 2 ^ (k - j))"
  using bits_add [of j "k - j" n] by (simp add: length_bits)

lemma drop_bits: "j \<le> k \<Longrightarrow> drop j (bits k n) = bits (k - j) n"
  using bits_add [of j "k - j" n] by (simp add: length_bits)

lemma bits_eq_iff: "bits k m = bits k n \<longleftrightarrow> m mod 2 ^ k = n mod 2 ^ k"
proof
  assume "bits k m = bits k n"
  then have "bits_value (bits k m) = bits_value (bits k n)" by simp
  then show "m mod 2 ^ k = n mod 2 ^ k" by (simp add: bits_value_bits)
next
  assume "m mod 2 ^ k = n mod 2 ^ k"
  then show "bits k m = bits k n"
  proof (induction k arbitrary: m n)
    case 0
    then show ?case by simp
  next
    case (Suc k)
    have a: "m mod (2 * 2 ^ k) = 2 * (m div 2 mod 2 ^ k) + m mod 2"
      using zmod_zmult2_eq [of "2 ^ k" m 2] by simp
    have b: "n mod (2 * 2 ^ k) = 2 * (n div 2 mod 2 ^ k) + n mod 2"
      using zmod_zmult2_eq [of "2 ^ k" n 2] by simp
    define x y p q where "x = m div 2 mod 2 ^ k" and "y = n div 2 mod 2 ^ k"
      and "p = m mod 2" and "q = n mod 2"
    have r: "0 \<le> p \<and> p < 2 \<and> 0 \<le> q \<and> q < 2" by (simp add: p_def q_def)
    from Suc.prems a b have "2 * x + p = 2 * y + q" by (simp add: x_def y_def p_def q_def)
    with r have "x = y \<and> p = q" by presburger
    then have "m div 2 mod 2 ^ k = n div 2 mod 2 ^ k \<and> m mod 2 = n mod 2"
      by (simp add: x_def y_def p_def q_def)
    with Suc.IH [of "m div 2" "n div 2"] show ?case
      by (simp add: odd_iff_mod_2_eq_one)
  qed
qed


subsection \<open>The UTF-8 encoding\<close>

lemma surrogate_patterns:
  "[True, True, False, True, True] = bits 5 27"
  "[True, True, False, True, True, False] = bits 6 54"
  "[True, True, False, True, True, True] = bits 6 55"
  by (simp_all add: numeral_eq_Suc)

lemma uint_u16: "0 \<le> uint c \<and> uint c < 65536" for c :: u16
  using uint_lt2p [of c] by simp

lemma surrogate_bits:
  assumes "0 \<le> u" "u < 65536"
  shows "take 5 (bits 16 u) = [True, True, False, True, True]
           \<longleftrightarrow> high_surrogate u \<or> low_surrogate u"
    and "take 6 (bits 16 u) = [True, True, False, True, True, False] \<longleftrightarrow> high_surrogate u"
    and "take 6 (bits 16 u) = [True, True, False, True, True, True] \<longleftrightarrow> low_surrogate u"
proof -
  have a: "take 5 (bits 16 u) = bits 5 (u div 2048)"
    using take_bits [of 5 16 u] by simp
  have b: "take 6 (bits 16 u) = bits 6 (u div 1024)"
    using take_bits [of 6 16 u] by simp
  from assms have "0 \<le> u div 2048 \<and> u div 2048 < 32" by linarith
  then have c: "u div 2048 mod 32 = u div 2048" by simp
  from assms have "0 \<le> u div 1024 \<and> u div 1024 < 64" by linarith
  then have d: "u div 1024 mod 64 = u div 1024" by simp
  from assms have "u div 2048 = 27 \<longleftrightarrow> 55296 \<le> u \<and> u \<le> 57343" by linarith
  with c show "take 5 (bits 16 u) = [True, True, False, True, True]
           \<longleftrightarrow> high_surrogate u \<or> low_surrogate u"
    by (simp only: a surrogate_patterns bits_eq_iff)
       (auto simp add: high_surrogate_def low_surrogate_def)
  from assms have "u div 1024 = 54 \<longleftrightarrow> 55296 \<le> u \<and> u \<le> 56319" by linarith
  with d show "take 6 (bits 16 u) = [True, True, False, True, True, False] \<longleftrightarrow> high_surrogate u"
    by (simp only: b surrogate_patterns bits_eq_iff) (simp add: high_surrogate_def)
  from assms have "u div 1024 = 55 \<longleftrightarrow> 56320 \<le> u \<and> u \<le> 57343" by linarith
  with d show "take 6 (bits 16 u) = [True, True, False, True, True, True] \<longleftrightarrow> low_surrogate u"
    by (simp only: b surrogate_patterns bits_eq_iff) (simp add: low_surrogate_def)
qed

lemma mod_in_range:
  fixes c :: int
  assumes "q * m \<le> c" "c < q * m + m"
  shows "c mod m = c - q * m"
proof -
  have "c mod m = (c - q * m + q * m) mod m" by simp
  also have "\<dots> = (c - q * m) mod m" by (simp only: mod_mult_self1)
  also from assms have "\<dots> = c - q * m" by simp
  finally show ?thesis .
qed

lemma surrogate_pair_value:
  assumes "high_surrogate c" "low_surrogate d"
  shows "bits_value (drop 6 (bits 16 c) @ drop 6 (bits 16 d))
           = (c - 0xD800) * 1024 + (d - 0xDC00)"
proof -
  from assms have "c mod 1024 = c - 55296" "d mod 1024 = d - 56320"
    unfolding high_surrogate_def low_surrogate_def
    using mod_in_range [of 54 1024 c] mod_in_range [of 55 1024 d] by simp_all
  then show ?thesis
    by (simp add: drop_bits bits_value_append bits_value_bits length_bits)
qed

lemma octet_of_eq: "octet_of bs = of_int (bits_value bs)"
  by (simp add: octet_of_def)

lemma spec_utf8_char_eq:
  assumes "0 \<le> cp" "cp < 0x110000"
  shows "spec_utf8_char cp = utf8_of_code_point cp"
proof -
  consider "cp < 0x80" | "0x80 \<le> cp" "cp < 0x800" | "0x800 \<le> cp" "cp < 0x10000"
    | "0x10000 \<le> cp" by linarith
  then show ?thesis
  proof cases
    case 1
    with assms have "cp mod 128 = cp" by simp
    with 1 show ?thesis
      by (simp add: spec_utf8_char_def utf8_of_code_point_def octet_of_eq bits_value_Cons
          bits_value_bits length_bits)
  next
    case 2
    then have "0 \<le> cp div 64 \<and> cp div 64 < 32" by linarith
    then have "cp div 64 mod 32 = cp div 64" by simp
    with 2 show ?thesis
      by (simp add: spec_utf8_char_def utf8_of_code_point_def octet_of_eq Let_def
          take_bits drop_bits bits_value_Cons bits_value_bits length_bits)
  next
    case 3
    then have "0 \<le> cp div 4096 \<and> cp div 4096 < 16" by linarith
    then have "cp div 4096 mod 16 = cp div 4096" by simp
    with 3 show ?thesis
      by (simp add: spec_utf8_char_def utf8_of_code_point_def octet_of_eq Let_def
          take_bits drop_bits bits_value_Cons bits_value_bits length_bits)
  next
    case 4
    with assms have "0 \<le> cp div 262144 \<and> cp div 262144 < 8" by linarith
    then have "cp div 262144 mod 8 = cp div 262144" by simp
    with 4 show ?thesis
      by (simp add: spec_utf8_char_def utf8_of_code_point_def octet_of_eq Let_def
          take_bits drop_bits bits_value_Cons bits_value_bits length_bits)
  qed
qed

lemma spec_utf8_unit:
  "spec_utf8_char (uint c) = utf8_of_code_point (uint c)" for c :: u16
  using uint_u16 [of c] by (simp add: spec_utf8_char_eq)

lemma spec_utf8_pair:
  assumes "high_surrogate c" "low_surrogate d"
  shows "spec_utf8_char (0x10000 + (c - 0xD800) * 1024 + (d - 0xDC00))
           = utf8_of_code_point (0x10000 + (c - 0xD800) * 1024 + (d - 0xDC00))"
  using assms unfolding high_surrogate_def low_surrogate_def
  by (intro spec_utf8_char_eq) simp_all

lemma spec_utf8_replacement: "spec_utf8_char 0xFFFD = utf8_of_code_point 0xFFFD"
  by (simp add: spec_utf8_char_eq)

lemma utf8_encode_eq: "utf8_encode s = spec_utf8 s"
proof (induction s rule: utf8_encode.induct)
  case 1
  then show ?case by (simp add: spec_utf8_def)
next
  case (2 c)
  note sb = surrogate_bits [of "uint c"] uint_u16 [of c]
  show ?case
  proof (cases "high_surrogate (uint c) \<or> low_surrogate (uint c)")
    case True
    with sb show ?thesis by (simp add: spec_utf8_def spec_utf8_replacement)
  next
    case False
    with sb show ?thesis by (simp add: spec_utf8_def spec_utf8_unit)
  qed
next
  case (3 c d rest)
  note sc = surrogate_bits [of "uint c"] uint_u16 [of c]
  note sd = surrogate_bits [of "uint d"] uint_u16 [of d]
  show ?case
  proof (cases "high_surrogate (uint c)")
    case hc: True
    show ?thesis
    proof (cases "low_surrogate (uint d)")
      case True
      with hc have "spec_utf8_char (0x10000 + (uint c - 0xD800) * 1024 + (uint d - 0xDC00))
          = utf8_of_code_point (0x10000 + (uint c - 0xD800) * 1024 + (uint d - 0xDC00))"
        by (rule spec_utf8_pair)
      with hc True sc sd 3 show ?thesis
        by (simp add: spec_utf8_def surrogate_pair_value)
    next
      case False
      with hc sc sd 3 show ?thesis
        by (simp add: spec_utf8_def spec_utf8_replacement)
    qed
  next
    case nh: False
    show ?thesis
    proof (cases "low_surrogate (uint c)")
      case True
      with nh sc sd 3 show ?thesis
        by (simp add: spec_utf8_def spec_utf8_replacement)
    next
      case False
      with nh sc sd 3 show ?thesis
        by (simp add: spec_utf8_def spec_utf8_unit)
    qed
  qed
qed
subsection \<open>Base64 by groups of six bits\<close>

lemma digit_table:
  "list_all (\<lambda>n. spec_base64_digit (bits 6 (int n)) = base64_alphabet ! n) [0..<64]"
  by code_simp

lemma upt_small: "[0..<2] = [0, 1]" "[0..<3] = [0, 1, 2]" "[0..<4] = [0, 1, 2, 3]"
  by code_simp+

lemma bits_zero: "bits k 0 = replicate k False"
  by (induction k) (simp_all add: replicate_append_same)

lemma bits_mod: "bits k (n mod 2 ^ k) = bits k n"
  by (simp add: bits_eq_iff)

lemma spec_base64_digit_bits:
  assumes "0 \<le> v" "v < 64"
  shows "spec_base64_digit (bits 6 v) = base64_char (nat v)"
proof -
  from assms have n: "nat v < 64" and v: "int (nat v) = v" by simp_all
  from digit_table have "\<forall>n<64. spec_base64_digit (bits 6 (int n)) = base64_alphabet ! n"
    by (simp add: list_all_iff)
  with n have "spec_base64_digit (bits 6 (int (nat v))) = base64_alphabet ! nat v"
    by blast
  with n show ?thesis by (simp only: v base64_char_def mod_less)
qed

lemma uint_u8: "0 \<le> uint a \<and> uint a < 256" for a :: u8
  using uint_lt2p [of a] by simp

lemma sextet_values:
  fixes a b :: u8
  shows "nat (uint a div 4) = unat a div 4"
    and "nat (uint a mod 4 * 16 + uint b div 16) = unat a mod 4 * 16 + unat b div 16"
    and "nat (uint a mod 16 * 4 + uint b div 64) = unat a mod 16 * 4 + unat b div 64"
    and "nat (uint a mod 64) = unat a mod 64"
    and "nat (uint a mod 4 * 16) = unat a mod 4 * 16"
    and "nat (uint a mod 16 * 4) = unat a mod 16 * 4"
proof -
  have "uint a div 4 = int (unat a div 4)"
    by (simp add: of_nat_div)
  then show "nat (uint a div 4) = unat a div 4" by (simp only: nat_int)
  have "uint a mod 4 * 16 + uint b div 16 = int (unat a mod 4 * 16 + unat b div 16)"
    by (simp add: of_nat_div of_nat_mod)
  then show "nat (uint a mod 4 * 16 + uint b div 16) = unat a mod 4 * 16 + unat b div 16"
    by (simp only: nat_int)
  have "uint a mod 16 * 4 + uint b div 64 = int (unat a mod 16 * 4 + unat b div 64)"
    by (simp add: of_nat_div of_nat_mod)
  then show "nat (uint a mod 16 * 4 + uint b div 64) = unat a mod 16 * 4 + unat b div 64"
    by (simp only: nat_int)
  have "uint a mod 64 = int (unat a mod 64)"
    by (simp add: of_nat_mod)
  then show "nat (uint a mod 64) = unat a mod 64" by (simp only: nat_int)
  have "uint a mod 4 * 16 = int (unat a mod 4 * 16)"
    by (simp add: of_nat_mod)
  then show "nat (uint a mod 4 * 16) = unat a mod 4 * 16" by (simp only: nat_int)
  have "uint a mod 16 * 4 = int (unat a mod 16 * 4)"
    by (simp add: of_nat_mod)
  then show "nat (uint a mod 16 * 4) = unat a mod 16 * 4" by (simp only: nat_int)
qed

lemma bits_join:
  "bits j m @ bits k n = bits (j + k) (m * 2 ^ k + n mod 2 ^ k)"
proof -
  have "(m * 2 ^ k + n mod 2 ^ k) div 2 ^ k = m" by simp
  moreover have "bits k (m * 2 ^ k + n mod 2 ^ k) = bits k n"
    by (simp add: bits_eq_iff)
  ultimately show ?thesis by (simp add: bits_add)
qed

lemma sextets_of_octets:
  fixes a b c :: u8
  shows "take 6 (octet a) = bits 6 (uint a div 4)"
    and "drop 6 (octet a) @ take 4 (octet b) = bits 6 (uint a mod 4 * 16 + uint b div 16)"
    and "drop 4 (octet b) @ take 2 (octet c) = bits 6 (uint b mod 16 * 4 + uint c div 64)"
    and "drop 2 (octet c) = bits 6 (uint c mod 64)"
    and "drop 6 (octet a) @ replicate 4 False = bits 6 (uint a mod 4 * 16)"
    and "drop 4 (octet b) @ replicate 2 False = bits 6 (uint b mod 16 * 4)"
proof -
  note ua = uint_u8 [of a] and ub = uint_u8 [of b] and uc = uint_u8 [of c]
  show "take 6 (octet a) = bits 6 (uint a div 4)"
    by (simp add: octet_def take_bits)
  from ub have "0 \<le> uint b div 16 \<and> uint b div 16 < 16" by linarith
  then have b16: "uint b div 16 mod 16 = uint b div 16" by simp
  have "drop 6 (octet a) @ take 4 (octet b) = bits 2 (uint a mod 4) @ bits 4 (uint b div 16)"
    using bits_mod [of 2 "uint a"] by (simp add: octet_def take_bits drop_bits)
  also have "\<dots> = bits 6 (uint a mod 4 * 16 + uint b div 16)"
    using bits_join [of 2 "uint a mod 4" 4 "uint b div 16"] b16 by simp
  finally show "drop 6 (octet a) @ take 4 (octet b) = bits 6 (uint a mod 4 * 16 + uint b div 16)" .
  from uc have "0 \<le> uint c div 64 \<and> uint c div 64 < 4" by linarith
  then have c64: "uint c div 64 mod 4 = uint c div 64" by simp
  have "drop 4 (octet b) @ take 2 (octet c) = bits 4 (uint b mod 16) @ bits 2 (uint c div 64)"
    using bits_mod [of 4 "uint b"] by (simp add: octet_def take_bits drop_bits)
  also have "\<dots> = bits 6 (uint b mod 16 * 4 + uint c div 64)"
    using bits_join [of 4 "uint b mod 16" 2 "uint c div 64"] c64 by simp
  finally show "drop 4 (octet b) @ take 2 (octet c) = bits 6 (uint b mod 16 * 4 + uint c div 64)" .
  show "drop 2 (octet c) = bits 6 (uint c mod 64)"
    using bits_mod [of 6 "uint c"] by (simp add: octet_def drop_bits)
  have "drop 6 (octet a) @ replicate 4 False = bits 2 (uint a mod 4) @ bits 4 0"
    using bits_mod [of 2 "uint a"] by (simp add: octet_def drop_bits bits_zero)
  also have "\<dots> = bits 6 (uint a mod 4 * 16)"
    using bits_join [of 2 "uint a mod 4" 4 0] by simp
  finally show "drop 6 (octet a) @ replicate 4 False = bits 6 (uint a mod 4 * 16)" .
  have "drop 4 (octet b) @ replicate 2 False = bits 4 (uint b mod 16) @ bits 2 0"
    using bits_mod [of 4 "uint b"] by (simp add: octet_def drop_bits bits_zero)
  also have "\<dots> = bits 6 (uint b mod 16 * 4)"
    using bits_join [of 4 "uint b mod 16" 2 0] by simp
  finally show "drop 4 (octet b) @ replicate 2 False = bits 6 (uint b mod 16 * 4)" .
qed

lemma sextet_bounds:
  fixes a b :: u8
  shows "0 \<le> uint a div 4 \<and> uint a div 4 < 64"
    and "0 \<le> uint a mod 4 * 16 + uint b div 16 \<and> uint a mod 4 * 16 + uint b div 16 < 64"
    and "0 \<le> uint a mod 16 * 4 + uint b div 64 \<and> uint a mod 16 * 4 + uint b div 64 < 64"
    and "0 \<le> uint a mod 64 \<and> uint a mod 64 < 64"
    and "0 \<le> uint a mod 4 * 16 \<and> uint a mod 4 * 16 < 64"
    and "0 \<le> uint a mod 16 * 4 \<and> uint a mod 16 * 4 < 64"
proof -
  note ua = uint_u8 [of a] and ub = uint_u8 [of b]
  have m4: "0 \<le> uint a mod 4 \<and> uint a mod 4 < 4" by simp
  have m16: "0 \<le> uint a mod 16 \<and> uint a mod 16 < 16" by simp
  from ub have d16: "0 \<le> uint b div 16 \<and> uint b div 16 < 16" by linarith
  from ub have d64: "0 \<le> uint b div 64 \<and> uint b div 64 < 4" by linarith
  from ua show "0 \<le> uint a div 4 \<and> uint a div 4 < 64" by linarith
  from m4 d16 show "0 \<le> uint a mod 4 * 16 + uint b div 16 \<and> uint a mod 4 * 16 + uint b div 16 < 64"
    by linarith
  from m16 d64 show "0 \<le> uint a mod 16 * 4 + uint b div 64 \<and> uint a mod 16 * 4 + uint b div 64 < 64"
    by linarith
  show "0 \<le> uint a mod 64 \<and> uint a mod 64 < 64" by simp
  from m4 show "0 \<le> uint a mod 4 * 16 \<and> uint a mod 4 * 16 < 64" by linarith
  from m16 show "0 \<le> uint a mod 16 * 4 \<and> uint a mod 16 * 4 < 64" by linarith
qed

lemma length_octet: "length (octet a) = 8"
  by (simp add: octet_def length_bits)

lemma base64_eq: "base64 bytes = spec_base64 bytes"
proof (induction bytes rule: base64.induct)
  case 1
  then show ?case by simp
next
  case (2 a)
  have "chunks 6 (octet a @ replicate 4 False)
      = [take 6 (octet a), drop 6 (octet a) @ replicate 4 False]"
    by (simp add: chunks_def length_octet upt_small)
  then show ?case
    by (simp add: sextets_of_octets spec_base64_digit_bits sextet_bounds sextet_values)
next
  case (3 a b)
  have "chunks 6 (octet a @ octet b @ replicate 2 False)
      = [take 6 (octet a), drop 6 (octet a) @ take 4 (octet b),
         drop 4 (octet b) @ replicate 2 False]"
    by (simp add: chunks_def length_octet upt_small)
  then show ?case
    by (simp add: sextets_of_octets spec_base64_digit_bits sextet_bounds sextet_values)
next
  case (4 a b c rest)
  have "chunks 6 (octet a @ octet b @ octet c)
      = [take 6 (octet a), drop 6 (octet a) @ take 4 (octet b),
         drop 4 (octet b) @ take 2 (octet c), drop 2 (octet c)]"
    by (simp add: chunks_def length_octet upt_small)
  with 4 show ?case
    by (simp add: sextets_of_octets spec_base64_digit_bits sextet_bounds sextet_values)
qed

subsection \<open>SHA-256 by the standard\<close>

lemma ucast_drop_bit_u8:
  "(ucast (drop_bit k w) :: u8) = word_of_int (uint w div 2 ^ k)" for w :: "'a::len word"
  by (rule bit_word_eqI) (auto simp add: bit_simps drop_bit_eq_div [symmetric] dest: bit_imp_le_length)

lemma octet_of_bits: "octet_of (bits 8 n) = word_of_int n"
  by (simp add: octet_of_def bits_value_bits word_of_int_eq_iff take_bit_eq_mod)

lemma be32_as_sum:
  "(push_bit 24 (ucast a) OR push_bit 16 (ucast b) OR push_bit 8 (ucast c) OR ucast d :: u32)
     = word_of_int (uint a * 16777216 + uint b * 65536 + uint c * 256 + uint d)"
  for a b c d :: u8
proof -
  have "uint a * 16777216 + uint b * 65536 + uint c * 256 + uint d
      = concat_bit 8 (uint d) (concat_bit 8 (uint c) (concat_bit 8 (uint b) (uint a)))"
    by (simp add: concat_bit_eq push_bit_eq_mult take_bit_eq_mod uint_u8)
  then show ?thesis
    apply (simp only:)
    apply (rule bit_word_eqI)
    apply (auto simp add: bit_simps dest: bit_imp_le_length)
    done
qed
lemma uint_of_nat_64: "uint (of_nat n :: 64 word) = take_bit 64 (int n)"
  by (simp add: unsigned_of_nat take_bit_of_nat)

lemma u8_of_nat_64:
  "k \<le> 56 \<Longrightarrow>
   (word_of_int (uint (of_nat n :: 64 word) div 2 ^ k) :: u8) = word_of_int (int n div 2 ^ k)"
  by (auto simp add: word_of_int_eq_iff uint_of_nat_64
      drop_bit_eq_div [symmetric] drop_bit_take_bit min_def)

lemma chunks_short: "length xs < n \<Longrightarrow> chunks n xs = []"
  by (simp add: chunks_def)

lemma chunks_step:
  assumes "0 < n" "n \<le> length xs"
  shows "chunks n xs = take n xs # chunks n (drop n xs)"
proof -
  from assms have d: "length xs div n = Suc ((length xs - n) div n)"
    by (rule le_div_geq)
  have "[0..<Suc ((length xs - n) div n)] = 0 # map Suc [0..<(length xs - n) div n]"
    by (simp add: upt_conv_Cons map_Suc_upt del: upt_Suc)
  then show ?thesis
    by (simp add: chunks_def d add.commute del: upt_Suc) 
qed

lemma chunks_append:
  "length x = n \<Longrightarrow> 0 < n \<Longrightarrow> chunks n (x @ y) = x # chunks n y"
  using chunks_step [of n "x @ y"] by simp

lemma bits_value_octet: "bits_value (octet a) = uint a"
  using uint_u8 [of a] by (simp add: octet_def bits_value_bits)

lemma spec_word_4:
  "spec_word [a, b, c, d]
     = push_bit 24 (ucast a) OR push_bit 16 (ucast b) OR push_bit 8 (ucast c) OR ucast d"
  by (simp add: spec_word_def be32_as_sum bits_value_append bits_value_octet length_octet
      algebra_simps)

lemma be32_words_eq: "be32_words bs = map spec_word (chunks 4 bs)"
proof (induction bs rule: be32_words.induct)
  case (1 a b c d rest)
  have "chunks 4 (a # b # c # d # rest) = [a, b, c, d] # chunks 4 rest"
    using chunks_append [of "[a, b, c, d]" 4 rest] by simp
  with 1 show ?case by (simp add: spec_word_4)
qed (simp_all add: chunks_short)

lemma length_spec_schedule: "length (spec_schedule n W) = length W + n"
  by (induction n arbitrary: W) (simp_all add: Let_def)

lemma schedule_eq:
  "16 \<le> length w \<Longrightarrow> rev (schedule n w) = spec_schedule n (rev w)"
proof (induction n arbitrary: w)
  case 0
  then show ?case by simp
next
  case (Suc n)
  let ?x = "sigma1 (w ! 1) + w ! 6 + sigma0 (w ! 14) + w ! 15"
  from Suc.prems have "rev w ! (length w - 2) = w ! 1" "rev w ! (length w - 7) = w ! 6"
    "rev w ! (length w - 15) = w ! 14" "rev w ! (length w - 16) = w ! 15"
    by (simp_all add: rev_nth)
  then have "spec_schedule (Suc n) (rev w) = spec_schedule n (rev (?x # w))"
    by (simp add: Let_def)
  moreover from Suc.prems have "rev (schedule n (?x # w)) = spec_schedule n (rev (?x # w))"
    by (intro Suc.IH) simp
  ultimately show ?case by simp
qed

lemma spec_round_eq:
  "spec_round W (state_words st) t = state_words (sha_round st (K256 ! t, W ! t))"
  by (cases st rule: state_words.cases) (simp add: spec_round_def Let_def)

lemma rounds_eq:
  "n \<le> length K256 \<Longrightarrow> n \<le> length W \<Longrightarrow>
   foldl (spec_round W) (state_words st) [0..<n]
     = state_words (foldl sha_round st (zip (take n K256) (take n W)))"
proof (induction n)
  case 0
  then show ?case by simp
next
  case (Suc n)
  then have "zip (take (Suc n) K256) (take (Suc n) W)
      = zip (take n K256) (take n W) @ [(K256 ! n, W ! n)]"
    by (simp add: take_Suc_conv_app_nth)
  with Suc show ?case by (simp add: spec_round_eq)
qed

lemma length_K256: "length K256 = 64"
  by (simp add: K256_def)

lemma state_words_add:
  "map2 (+) (state_words s) (state_words t) = state_words (sha_add s t)"
  by (cases s rule: state_words.cases, cases t rule: state_words.cases) simp

lemma length_chunks: "length (chunks n xs) = length xs div n"
  by (simp add: chunks_def)

lemma hash_block_eq:
  assumes "length block = 64"
  shows "spec_hash_block (state_words st) (map spec_word (chunks 4 block))
           = state_words (sha_compress st block)"
proof -
  let ?M = "be32_words block"
  from assms have len: "length ?M = 16" by (simp add: be32_words_eq length_chunks)
  then have s: "rev (schedule 48 (rev ?M)) = spec_schedule 48 ?M"
    using schedule_eq [of "rev ?M" 48] by simp
  from len have l: "length (spec_schedule 48 ?M) = 64" by (simp add: length_spec_schedule)
  have "foldl (spec_round (spec_schedule 48 ?M)) (state_words st) [0..<64]
      = state_words (foldl sha_round st (zip K256 (spec_schedule 48 ?M)))"
    using rounds_eq [of 64 "spec_schedule 48 ?M" st] l by (simp add: length_K256)
  then show ?thesis
    by (simp add: spec_hash_block_def sha_compress_def s state_words_add
        be32_words_eq [symmetric] del: upt_Suc)
qed

lemma blocks_eq:
  "n = length bytes div 64 \<Longrightarrow>
   foldl spec_hash_block (state_words st) (spec_blocks bytes)
     = state_words (sha_blocks n st bytes)"
proof (induction n arbitrary: st bytes)
  case 0
  then show ?case by (simp add: spec_blocks_def length_chunks chunks_def)
next
  case (Suc n)
  from Suc.prems have long: "64 \<le> length bytes"
    by (cases "length bytes < 64") simp_all
  then have c: "chunks 64 bytes = take 64 bytes # chunks 64 (drop 64 bytes)"
    by (simp add: chunks_step)
  from long Suc.prems have n: "n = length (drop 64 bytes) div 64"
    using le_div_geq [of 64 "length bytes"] by simp
  from long have "length (take 64 bytes) = 64" by simp
  then have "spec_hash_block (state_words st) (map spec_word (chunks 4 (take 64 bytes)))
      = state_words (sha_compress st (take 64 bytes))"
    by (rule hash_block_eq)
  with Suc.IH [OF n, of "sha_compress st (take 64 bytes)"] show ?case
    by (simp add: spec_blocks_def c)
qed

lemma chunks_single: "length x = n \<Longrightarrow> 0 < n \<Longrightarrow> chunks n x = [x]"
  using chunks_append [of x n "[]"] by (simp add: chunks_short)

lemma digest_eq:
  "sha_digest st = concat (map (\<lambda>w. map octet_of (chunks 8 (bits 32 (uint w)))) (state_words st))"
proof -
  have w: "map octet_of (chunks 8 (bits 32 (uint w))) = be32_bytes w" for w :: u32
  proof -
    have "bits 32 (uint w) = bits 8 (uint w div 2 ^ 24) @ bits 8 (uint w div 2 ^ 16)
        @ bits 8 (uint w div 2 ^ 8) @ bits 8 (uint w)"
      using bits_add [of 8 24 "uint w"] bits_add [of 8 16 "uint w"] bits_add [of 8 8 "uint w"]
      by simp
    then have "chunks 8 (bits 32 (uint w)) = [bits 8 (uint w div 2 ^ 24),
        bits 8 (uint w div 2 ^ 16), bits 8 (uint w div 2 ^ 8), bits 8 (uint w)]"
      by (simp add: chunks_append chunks_single length_bits)
    then show ?thesis
      using ucast_drop_bit_u8 [of 0 w]
      by (simp add: be32_bytes_def octet_of_bits ucast_drop_bit_u8)
  qed
  show ?thesis by (cases st rule: state_words.cases) (simp add: w)
qed

lemma padding_zeros:
  "nat ((447 - 8 * int (length M)) mod 512) = 8 * ((119 - length M mod 64) mod 64) + 7"
proof -
  define m r where "m = length M div 64" and "r = length M mod 64"
  have r: "r < 64" by (simp add: r_def)
  have "length M = 64 * m + r" by (simp add: m_def r_def)
  then have "int (length M) = int (64 * m + r)" by simp
  then have L: "int (length M) = 64 * int m + int r" by simp
  show ?thesis
  proof (cases "r \<le> 55")
    case True
    then have "(447 - 8 * int (length M)) mod 512 = 447 - 8 * int (length M) - (- int m) * 512"
      by (intro mod_in_range) (simp_all add: L)
    then have a: "(447 - 8 * int (length M)) mod 512 = 447 - 8 * int r" by (simp add: L)
    from True have "119 - r = (55 - r) + 64" by simp
    then have "(119 - r) mod 64 = (55 - r) mod 64" by (simp only: mod_add_self2)
    with True have b: "(119 - r) mod 64 = 55 - r" by simp
    from True show ?thesis unfolding a by (simp add: b flip: r_def)
  next
    case False
    then have "(447 - 8 * int (length M)) mod 512 = 447 - 8 * int (length M) - (- int m - 1) * 512"
      using r by (intro mod_in_range) (simp_all add: L)
    then have a: "(447 - 8 * int (length M)) mod 512 = 959 - 8 * int r" by (simp add: L)
    from False r have b: "(119 - r) mod 64 = 119 - r" by simp
    from False r show ?thesis unfolding a by (simp add: b flip: r_def)
  qed
qed

lemma chunks_zero_octets:
  "chunks 8 (replicate (8 * z) False @ X) = replicate z (replicate 8 False) @ chunks 8 X"
proof (induction z)
  case 0
  then show ?case by simp
next
  case (Suc z)
  have "replicate (8 * Suc z) False = replicate 8 False @ replicate (8 * z) False"
    by (simp flip: replicate_add)
  with Suc show ?case by (simp add: chunks_append)
qed

lemma octet_of_patterns:
  "octet_of (True # replicate 7 False) = 0x80" "octet_of (replicate 8 False) = 0"
  by code_simp+

lemma length_octets_eq:
  "map octet_of (chunks 8 (bits 64 (int n))) = be64 (of_nat n)"
proof -
  have "octet_of (take 8 (drop (8 * i) (bits 64 (int n))))
      = ucast (drop_bit (8 * (7 - i)) (of_nat n :: 64 word))" if "i < 8" for i
  proof -
    from that have "take 8 (drop (8 * i) (bits 64 (int n))) = bits 8 (int n div 2 ^ (8 * (7 - i)))"
      by (simp add: drop_bits take_bits algebra_simps)
    moreover from that have "8 * (7 - i) \<le> 56" by simp
    ultimately show ?thesis
      by (simp add: octet_of_bits ucast_drop_bit_u8 u8_of_nat_64)
  qed
  then show ?thesis by (simp add: chunks_def be64_def length_bits del: upt_Suc)
qed

lemma padding_eq: "sha256_pad M = M @ spec_padding M"
proof -
  let ?z = "(119 - length M mod 64) mod 64"
  let ?l = "int (8 * length M)"
  have "replicate (8 * ?z + 7) False = replicate 7 False @ replicate (8 * ?z) False"
    by (simp only: add.commute [of "8 * ?z" 7] replicate_add)
  then have "True # replicate (8 * ?z + 7) False @ bits 64 ?l
      = (True # replicate 7 False) @ (replicate (8 * ?z) False @ bits 64 ?l)"
    by (simp only: append_Cons append_assoc)
  moreover have "chunks 8 ((True # replicate 7 False) @ (replicate (8 * ?z) False @ bits 64 ?l))
      = (True # replicate 7 False) # chunks 8 (replicate (8 * ?z) False @ bits 64 ?l)"
    by (rule chunks_append) simp_all
  ultimately have "chunks 8 (True # replicate (8 * ?z + 7) False @ bits 64 ?l)
      = (True # replicate 7 False) # replicate ?z (replicate 8 False) @ chunks 8 (bits 64 ?l)"
    by (simp only: chunks_zero_octets)
  then have "spec_padding M = [0x80] @ replicate ?z 0 @ be64 (of_nat (8 * length M))"
    using padding_zeros [of M] length_octets_eq [of "8 * length M"]
    by (simp add: spec_padding_def Let_def octet_of_patterns del: replicate.simps)
  then show ?thesis by (simp add: sha256_pad_def)
qed

lemma sha256_eq: "sha256 M = spec_sha256 M"
proof -
  have "state_words (H256 ! 0, H256 ! 1, H256 ! 2, H256 ! 3, H256 ! 4, H256 ! 5, H256 ! 6, H256 ! 7)
      = H256"
    by (simp add: H256_def)
  then show ?thesis
    using blocks_eq [of "length (sha256_pad M) div 64" "sha256_pad M"
        "(H256 ! 0, H256 ! 1, H256 ! 2, H256 ! 3, H256 ! 4, H256 ! 5, H256 ! 6, H256 ! 7)"]
    by (simp add: sha256_def spec_sha256_def Let_def digest_eq padding_eq)
qed

subsection \<open>The identifier\<close>

lemma deterministicUniqueId_call_eq:
  "deterministicUniqueId_call key len c
     = (Inr (deterministicUniqueId key len),
        c\<lparr>hash_count := Suc (hash_count c),
          hash_objects := (hash_objects c)(hash_count c \<mapsto>
            \<lparr>hash_data = utf8_encode key, hash_finished = True\<rparr>)\<rparr>)"
  by (simp add: deterministicUniqueId_call_def createHash_def hash_update_def hash_digest_def
      deterministicUniqueId_def)

lemma deterministicUniqueId_eq_spec:
  "deterministicUniqueId key (Some len) = spec_deterministicIdentifier key len"
  by (simp add: deterministicUniqueId_def spec_deterministicIdentifier_def replace_all_def
      replace_loop_plus_slash_equals substr_from_start utf8_encode_eq sha256_eq base64_eq)

text \<open>
  The key \<open>abc\<close>, whose digest is the first example of the standard; the second example of
  the standard, a message of 56 octets, which is hashed in two blocks; and a key with
  characters of one, two, three and four octets and a surrogate without its partner.
\<close>

lemma deterministicUniqueId_abc:
  "deterministicUniqueId (js_string ''abc'') (Some 50)
     = ''ungWv48BzxpBQUDeXa4iI7ADYaOWF3qctBDxYfIAFa0x''"
  by code_simp

lemma deterministicUniqueId_two_blocks:
  "deterministicUniqueId
     (js_string ''abcdbcdecdefdefgefghfghighijhijkijkljklmklmnlmnomnopnopq'') None
     = ''JI1qYdIGOLjlwCaTD''"
  by code_simp

lemma deterministicUniqueId_unicode:
  "deterministicUniqueId [0x61, 0xE9, 0x20AC, 0xD83D, 0xDE00, 0xD800] (Some 44)
     = ''a7sgaxc2t7xerMZM1Ff5izMrr8g7uXujQFu3LxSKejMx''"
  by code_simp

text \<open>
  C8. The value of \<open>deterministicUniqueId\<close> is the identifier of the specification: the
  SHA-256 digest (FIPS 180-4) of the UTF-8 encoding (RFC 3629) of the key, in base64
  (RFC 4648), with every \<open>+\<close>, \<open>/\<close> and \<open>=\<close> replaced by \<open>x\<close>, cut to the requested
  length, 17 when none is given. The function is pure: in every state of \<open>crypto\<close> the call
  returns that value and does not throw, so a second call with the same key and length,
  made in the state the first one left, returns what the first returned; and the call
  changes no \<open>Hash\<close> object but the one it makes. On the two example messages of the
  standard and on a key outside ASCII the value is the one that SHA-256, UTF-8 and base64
  give.
\<close>

theorem deterministicUniqueId_refines_spec:
  "deterministicUniqueId key (Some len) = spec_deterministicIdentifier key len
   \<and> deterministicUniqueId key None = spec_deterministicIdentifier key 17
   \<and> fst (deterministicUniqueId_call key l c) = Inr (deterministicUniqueId key l)
   \<and> fst (deterministicUniqueId_call key l (snd (deterministicUniqueId_call key l c)))
       = fst (deterministicUniqueId_call key l c)
   \<and> (h \<noteq> hash_count c \<longrightarrow>
        hash_objects (snd (deterministicUniqueId_call key l c)) h = hash_objects c h)
   \<and> deterministicUniqueId (js_string ''abc'') (Some 50)
       = ''ungWv48BzxpBQUDeXa4iI7ADYaOWF3qctBDxYfIAFa0x''
   \<and> deterministicUniqueId
        (js_string ''abcdbcdecdefdefgefghfghighijhijkijkljklmklmnlmnomnopnopq'') None
       = ''JI1qYdIGOLjlwCaTD''
   \<and> deterministicUniqueId [0x61, 0xE9, 0x20AC, 0xD83D, 0xDE00, 0xD800] (Some 44)
       = ''a7sgaxc2t7xerMZM1Ff5izMrr8g7uXujQFu3LxSKejMx''"
proof -
  have c1: "deterministicUniqueId key (Some len) = spec_deterministicIdentifier key len"
    by (rule deterministicUniqueId_eq_spec)
  have "deterministicUniqueId key None = deterministicUniqueId key (Some 17)"
    by (simp add: deterministicUniqueId_def)
  then have c2: "deterministicUniqueId key None = spec_deterministicIdentifier key 17"
    by (simp only: deterministicUniqueId_eq_spec)
  have c3: "fst (deterministicUniqueId_call key l c) = Inr (deterministicUniqueId key l)"
    by (simp add: deterministicUniqueId_call_eq)
  have c4: "fst (deterministicUniqueId_call key l (snd (deterministicUniqueId_call key l c)))
       = fst (deterministicUniqueId_call key l c)"
    by (simp add: deterministicUniqueId_call_eq)
  have c5: "h \<noteq> hash_count c \<longrightarrow>
        hash_objects (snd (deterministicUniqueId_call key l c)) h = hash_objects c h"
    by (simp add: deterministicUniqueId_call_eq)
  from c1 c2 c3 c4 c5 deterministicUniqueId_abc deterministicUniqueId_two_blocks
    deterministicUniqueId_unicode
  show ?thesis by blast
qed

theorem deterministicUniqueId_refines_spec_witness:
  "(0::nat) \<noteq> hash_count
      \<lparr>hash_count = 1,
       hash_objects = [0 \<mapsto> \<lparr>hash_data = [1, 2], hash_finished = False\<rparr>]\<rparr>
   \<and> spec_deterministicIdentifier (js_string ''abc'') 50
       = ''ungWv48BzxpBQUDeXa4iI7ADYaOWF3qctBDxYfIAFa0x''
   \<and> fst (deterministicUniqueId_call (js_string ''abc'') (Some 50)
        \<lparr>hash_count = 1,
         hash_objects = [0 \<mapsto> \<lparr>hash_data = [1, 2], hash_finished = False\<rparr>]\<rparr>)
       = Inr ''ungWv48BzxpBQUDeXa4iI7ADYaOWF3qctBDxYfIAFa0x''
   \<and> hash_objects (snd (deterministicUniqueId_call (js_string ''abc'') (Some 50)
        \<lparr>hash_count = 1,
         hash_objects = [0 \<mapsto> \<lparr>hash_data = [1, 2], hash_finished = False\<rparr>]\<rparr>)) 0
       = Some \<lparr>hash_data = [1, 2], hash_finished = False\<rparr>"
proof -
  let ?c = "\<lparr>hash_count = 1,
       hash_objects = [0 \<mapsto> \<lparr>hash_data = [1, 2], hash_finished = False\<rparr>]\<rparr>"
  have h: "(0::nat) \<noteq> hash_count ?c" by simp
  note spec = deterministicUniqueId_refines_spec
    [where key = "js_string ''abc''" and len = 50 and l = "Some 50" and c = ?c and h = 0]
  from spec have v: "deterministicUniqueId (js_string ''abc'') (Some 50)
      = ''ungWv48BzxpBQUDeXa4iI7ADYaOWF3qctBDxYfIAFa0x''" by blast
  from spec have "deterministicUniqueId (js_string ''abc'') (Some 50)
      = spec_deterministicIdentifier (js_string ''abc'') 50" by blast
  with v have c1: "spec_deterministicIdentifier (js_string ''abc'') 50
      = ''ungWv48BzxpBQUDeXa4iI7ADYaOWF3qctBDxYfIAFa0x''" by simp
  from spec have "fst (deterministicUniqueId_call (js_string ''abc'') (Some 50) ?c)
      = Inr (deterministicUniqueId (js_string ''abc'') (Some 50))" by blast
  with v have c2: "fst (deterministicUniqueId_call (js_string ''abc'') (Some 50) ?c)
      = Inr ''ungWv48BzxpBQUDeXa4iI7ADYaOWF3qctBDxYfIAFa0x''" by simp
  from spec h have "hash_objects (snd (deterministicUniqueId_call (js_string ''abc'') (Some 50) ?c)) 0
      = hash_objects ?c 0" by blast
  then have c3: "hash_objects (snd (deterministicUniqueId_call (js_string ''abc'') (Some 50) ?c)) 0
      = Some \<lparr>hash_data = [1, 2], hash_finished = False\<rparr>" by simp
  from h c1 c2 c3 show ?thesis by blast
qed

lemma length_deterministicUniqueId:
  "length (deterministicUniqueId key (Some len)) = min (nat len) 44"
  by (simp add: deterministicUniqueId_def replace_all_def replace_loop_plus_slash_equals
      substr_from_start length_base64 length_sha256)

text \<open>
  C10. For every key and every length \<open>L \<ge> 0\<close> the result has \<open>min(L, 44)\<close> characters:
  the digest has 32 bytes, its base64 text 44 characters, and a longer result is never made.
\<close>

theorem deterministicUniqueId_length:
  "0 \<le> L \<Longrightarrow>
   int (length (deterministicUniqueId key (Some L))) = min L 44
   \<and> length (sha256 (utf8_encode key)) = 32
   \<and> length (base64 (sha256 (utf8_encode key))) = 44
   \<and> (44 < L \<longrightarrow> length (deterministicUniqueId key (Some L)) = 44)"
  by (auto simp add: length_deterministicUniqueId length_base64 length_sha256 min_def)

theorem deterministicUniqueId_length_witness:
  "(0::int) \<le> 50 \<and> (44::int) < 50
   \<and> deterministicUniqueId (js_string ''abc'') (Some 50)
       = ''ungWv48BzxpBQUDeXa4iI7ADYaOWF3qctBDxYfIAFa0x''
   \<and> length (deterministicUniqueId (js_string ''abc'') (Some 50)) = 44"
proof -
  have h: "(0::int) \<le> 50" by simp
  have h': "(44::int) < 50" by simp
  from deterministicUniqueId_length [OF h, of "js_string ''abc''"] h'
  have "length (deterministicUniqueId (js_string ''abc'') (Some 50)) = 44" by blast
  with h h' deterministicUniqueId_abc show ?thesis by blast
qed

end
